theory Spec2Isabelle
  imports Main "HOL-Library.Char_ord"
begin

section \<open>The rename-files service (src/index.ts)\<close>

text \<open>
  The service walks one directory and gives every file whose base name is not already an
  identifier a fresh random identifier as its name, keeping the extension. The program is
  embedded function by function. What it calls from outside the repository (the Node.js
  modules \<open>fs\<close> and \<open>path\<close>, the npm package \<open>uuid\<close>, the console) is embedded as a small
  explicit world: a file system addressed by resolved paths, a random source, and one
  chronological trace of the file-system calls and console lines. JavaScript strings are
  embedded as \<open>string\<close>; names are taken to be ASCII.
\<close>

subsection \<open>Regular expressions of the shape used by \<open>isUUID\<close>\<close>

text \<open>
  The pattern of \<open>isUUID\<close> is a sequence of literal characters and of character classes
  repeated an exact number of times, anchored at both ends (\<open>^ ... $\<close>, no flags, so \<open>$\<close> is
  the end of the input only). Such a pattern is matched from left to right without choice.
\<close>

datatype atom = Rep "char \<Rightarrow> bool" nat | Lit char

fun matches :: "atom list \<Rightarrow> string \<Rightarrow> bool" where
  "matches [] s = (s = [])"
| "matches (Lit c # as) s = (case s of [] \<Rightarrow> False | x # xs \<Rightarrow> x = c \<and> matches as xs)"
| "matches (Rep P n # as) s = (n \<le> length s \<and> list_all P (take n s) \<and> matches as (drop n s))"

text \<open>The character class \<open>[0-9a-fA-F]\<close>.\<close>

definition hex :: "char \<Rightarrow> bool" where
  "hex c \<longleftrightarrow> (CHR ''0'' \<le> c \<and> c \<le> CHR ''9'') \<or> (CHR ''a'' \<le> c \<and> c \<le> CHR ''f'')
     \<or> (CHR ''A'' \<le> c \<and> c \<le> CHR ''F'')"

definition isUUID :: "string \<Rightarrow> bool" where
  "isUUID str = matches [Rep hex 8, Lit CHR ''-'', Rep hex 4, Lit CHR ''-'', Rep hex 4,
     Lit CHR ''-'', Rep hex 4, Lit CHR ''-'', Rep hex 12] str"

text \<open>
  The identifier as the specification words it: 36 characters, a dash at positions 8, 13,
  18 and 23, a hexadecimal digit of either case everywhere else.
\<close>

definition is_hex_digit :: "char \<Rightarrow> bool" where
  "is_hex_digit c \<longleftrightarrow> c \<in> set ''0123456789abcdefABCDEF''"

definition canonical_identifier :: "string \<Rightarrow> bool" where
  "canonical_identifier s \<longleftrightarrow> length s = 36 \<and>
     list_all (\<lambda>i. if i \<in> {8, 13, 18, 23} then s ! i = CHR ''-'' else is_hex_digit (s ! i))
       [0..<36]"

subsection \<open>The \<open>path\<close> module (POSIX flavour)\<close>

text \<open>
  \<open>path.join\<close> glues its non-empty arguments with the separator and normalises the result:
  empty and \<open>.\<close> segments disappear and \<open>..\<close> removes the segment before it; above the start
  of a relative path \<open>..\<close> is kept, above the root it is dropped.
\<close>

fun split_on :: "char \<Rightarrow> string \<Rightarrow> string list" where
  "split_on sep [] = [] # []"
| "split_on sep (c # cs) =
     (if c = sep then [] # split_on sep cs
      else (case split_on sep cs of [] \<Rightarrow> [c] # [] | x # xs \<Rightarrow> (c # x) # xs))"

fun join_with :: "string \<Rightarrow> string list \<Rightarrow> string" where
  "join_with sep [] = []"
| "join_with sep [x] = x"
| "join_with sep (x # y # ys) = x @ sep @ join_with sep (y # ys)"

text \<open>\<open>normalizeString\<close>, segment by segment; \<open>res\<close> holds the segments kept so far, last first.\<close>

fun normalize_segments :: "bool \<Rightarrow> string list \<Rightarrow> string list \<Rightarrow> string list" where
  "normalize_segments allowAboveRoot res [] = rev res"
| "normalize_segments allowAboveRoot res (seg # segs) =
     (if seg = [] \<or> seg = ''.'' then normalize_segments allowAboveRoot res segs
      else if seg = ''..'' then
        (case res of
           [] \<Rightarrow> normalize_segments allowAboveRoot (if allowAboveRoot then [''..''] else []) segs
         | lastSeg # kept \<Rightarrow>
             if lastSeg = ''..''
             then normalize_segments allowAboveRoot (if allowAboveRoot then ''..'' # res else res) segs
             else normalize_segments allowAboveRoot kept segs)
      else normalize_segments allowAboveRoot (seg # res) segs)"

definition path_normalize :: "string \<Rightarrow> string" where
  "path_normalize p =
     (if p = [] then ''.''
      else
        let isAbsolute = (hd p = CHR ''/'');
            trailingSeparator = (last p = CHR ''/'');
            body = join_with ''/'' (normalize_segments (\<not> isAbsolute) [] (split_on CHR ''/'' p))
        in if body = [] then (if isAbsolute then ''/'' else if trailingSeparator then ''./'' else ''.'')
           else (if isAbsolute then ''/'' else []) @ body @ (if trailingSeparator then ''/'' else []))"

definition path_join :: "string list \<Rightarrow> string" where
  "path_join args =
     (let given = filter (\<lambda>arg. arg \<noteq> []) args
      in if given = [] then ''.'' else path_normalize (join_with ''/'' given))"

text \<open>
  \<open>path.extname\<close> and \<open>path.parse(...).name\<close> look at the last portion of the path only
  (trailing separators ignored). The extension runs from the last dot to the end; it is
  empty when there is no dot, when the only dot is the first character, and for \<open>..\<close>.
\<close>

definition last_portion :: "string \<Rightarrow> string" where
  "last_portion p =
     rev (takeWhile (\<lambda>c. c \<noteq> CHR ''/'') (dropWhile (\<lambda>c. c = CHR ''/'') (rev p)))"

definition split_ext :: "string \<Rightarrow> string \<times> string" where
  "split_ext base =
     (let ext_rev = takeWhile (\<lambda>c. c \<noteq> CHR ''.'') (rev base);
          stem_rev = drop (Suc (length ext_rev)) (rev base)
      in if CHR ''.'' \<notin> set base \<or> stem_rev = [] \<or> base = ''..'' then (base, [])
         else (rev stem_rev, CHR ''.'' # rev ext_rev))"

definition path_extname :: "string \<Rightarrow> string" where
  "path_extname p = snd (split_ext (last_portion p))"

definition path_parse_name :: "string \<Rightarrow> string" where
  "path_parse_name p = fst (split_ext (last_portion p))"

subsection \<open>The \<open>uuid\<close> package and number formatting\<close>

text \<open>
  Version 4 identifiers: sixteen random bytes (here the bytes of a 128-bit value, most
  significant first), the version and variant bits forced, printed as lowercase hexadecimal
  in groups of 4, 2, 2, 2 and 6 bytes.
\<close>

definition hex_digit :: "nat \<Rightarrow> char" where
  "hex_digit n = ''0123456789abcdef'' ! (n mod 16)"

definition byte_to_hex :: "nat \<Rightarrow> string" where
  "byte_to_hex b = [hex_digit (b div 16), hex_digit b]"

definition bytes_to_hex :: "nat list \<Rightarrow> string" where
  "bytes_to_hex bs = concat (map byte_to_hex bs)"

fun le_bytes :: "nat \<Rightarrow> nat \<Rightarrow> nat list" where
  "le_bytes 0 r = []"
| "le_bytes (Suc k) r = (r mod 256) # le_bytes k (r div 256)"

definition rnd_bytes :: "nat \<Rightarrow> nat list" where
  "rnd_bytes r = rev (le_bytes 16 r)"

definition v4_bytes :: "nat \<Rightarrow> nat list" where
  "v4_bytes r =
     (let rnds = rnd_bytes r
      in rnds[6 := rnds ! 6 mod 16 + 64, 8 := rnds ! 8 mod 64 + 128])"

definition stringify :: "nat list \<Rightarrow> string" where
  "stringify arr =
     bytes_to_hex (take 4 arr) @ ''-'' @ bytes_to_hex (take 2 (drop 4 arr)) @ ''-'' @
     bytes_to_hex (take 2 (drop 6 arr)) @ ''-'' @ bytes_to_hex (take 2 (drop 8 arr)) @ ''-'' @
     bytes_to_hex (take 6 (drop 10 arr))"

definition uuid_v4 :: "nat \<Rightarrow> string" where
  "uuid_v4 r = stringify (v4_bytes r)"

text \<open>Decimal notation, as string concatenation and template literals print a count.\<close>

fun dec :: "nat \<Rightarrow> string" where
  "dec n = (if n < 10 then [''0123456789'' ! n] else dec (n div 10) @ [''0123456789'' ! (n mod 10)])"

declare dec.simps [simp del]


subsection \<open>The world: file system, random source, trace\<close>

datatype errno = ENOENT | ENOTDIR | EISDIR | EACCES | EPERM | EBUSY | EINVAL | EIO

datatype node = File string | Dir

datatype event =
    Stat string
  | Readdir string
  | Rename string string "errno option"
  | WriteFile string string "errno option"
  | Log string
  | Error string "errno option"

text \<open>
  A node is addressed by the segments of its resolved path. The three fault functions
  stand for every reason the system may have to refuse a call that the structure of the
  tree allows (permissions, busy files, kinds that do not fit, a failing device).
\<close>

record world =
  module_dir :: string
  nodes :: "(string list \<times> node) list"
  readdir_fault :: "string list \<Rightarrow> errno option"
  rename_fault :: "string list \<Rightarrow> string list \<Rightarrow> errno option"
  write_fault :: "string list \<Rightarrow> errno option"
  random :: "nat \<Rightarrow> nat"
  drawn :: nat
  trace :: "event list"

definition emit :: "event \<Rightarrow> world \<Rightarrow> world" where
  "emit e w = w\<lparr>trace := trace w @ [e]\<rparr>"

definition console_log :: "string \<Rightarrow> world \<Rightarrow> world" where
  "console_log msg w = emit (Log msg) w"

definition console_error :: "string \<Rightarrow> errno option \<Rightarrow> world \<Rightarrow> world" where
  "console_error msg err w = emit (Error msg err) w"

text \<open>
  Path resolution: the segments left after normalisation, relative paths taken from the
  root. The root always exists. A directory lists the last segments of the nodes directly
  under it, in the order the file system holds them.
\<close>

definition resolve :: "string \<Rightarrow> string list" where
  "resolve p = normalize_segments False [] (split_on CHR ''/'' p)"

definition lookup :: "(string list \<times> node) list \<Rightarrow> string list \<Rightarrow> node option" where
  "lookup ns k = (if k = [] then Some Dir else map_of ns k)"

definition entries :: "(string list \<times> node) list \<Rightarrow> string list \<Rightarrow> string list" where
  "entries ns k = map (\<lambda>kn. last (fst kn)) (filter (\<lambda>kn. fst kn \<noteq> [] \<and> butlast (fst kn) = k) ns)"

text \<open>
  A successful rename takes the node and everything under it to the new path and replaces
  what was at the new path, as the system call does. A successful write replaces the content
  of an existing file or adds a new file at the end of the listing.
\<close>

definition below :: "string list \<Rightarrow> string list \<Rightarrow> bool" where
  "below k k' \<longleftrightarrow> take (length k) k' = k"

definition move :: "string list \<Rightarrow> string list \<Rightarrow> (string list \<times> node) list \<Rightarrow> (string list \<times> node) list" where
  "move ko kn ns =
     (if ko = kn then ns
      else map (\<lambda>kv. (if below ko (fst kv) then kn @ drop (length ko) (fst kv) else fst kv, snd kv))
             (filter (\<lambda>kv. \<not> below kn (fst kv)) ns))"

definition store :: "string list \<Rightarrow> node \<Rightarrow> (string list \<times> node) list \<Rightarrow> (string list \<times> node) list" where
  "store k v ns =
     (if k \<in> fst ` set ns then map (\<lambda>kv. if fst kv = k then (k, v) else kv) ns else ns @ [(k, v)])"

text \<open>
  The calls of \<open>fs\<close>. Each records itself in the trace; rename and write record their
  outcome. \<open>Inl\<close> is a rejected promise.
\<close>

text \<open>
  \<open>fs.stat\<close> is handed paths as the caller wrote them, so it follows the path segment by
  segment from the root: an empty path is refused, and wherever the path steps through an
  empty segment, \<open>.\<close> or \<open>..\<close>, what has been reached so far has to be an existing
  directory. Stepping into a name asks nothing by itself: the node reached afterwards is
  looked up, and a node of a tree lies in directories only. Where the walk succeeds it ends
  at the node the normalised path denotes.
\<close>

fun reach :: "(string list \<times> node) list \<Rightarrow> string list \<Rightarrow> string list \<Rightarrow> errno + string list" where
  "reach ns cur [] = Inr cur"
| "reach ns cur (seg # segs) =
     (if seg = [] \<or> seg = ''.'' \<or> seg = ''..'' then
        (case lookup ns cur of
           None \<Rightarrow> Inl ENOENT
         | Some (File _) \<Rightarrow> Inl ENOTDIR
         | Some Dir \<Rightarrow> reach ns (if seg = ''..'' then butlast cur else cur) segs)
      else reach ns (cur @ [seg]) segs)"

definition locate :: "(string list \<times> node) list \<Rightarrow> string \<Rightarrow> errno + string list" where
  "locate ns p = (if p = [] then Inl ENOENT else reach ns [] (split_on CHR ''/'' p))"

definition fs_stat :: "string \<Rightarrow> world \<Rightarrow> (errno + node) \<times> world" where
  "fs_stat p w =
     (case locate (nodes w) p of
        Inl e \<Rightarrow> Inl e
      | Inr k \<Rightarrow> (case lookup (nodes w) k of None \<Rightarrow> Inl ENOENT | Some n \<Rightarrow> Inr n),
      emit (Stat p) w)"

definition fs_readdir :: "string \<Rightarrow> world \<Rightarrow> (errno + string list) \<times> world" where
  "fs_readdir p w =
     (let k = resolve p
      in (case lookup (nodes w) k of
            None \<Rightarrow> Inl ENOENT
          | Some (File _) \<Rightarrow> Inl ENOTDIR
          | Some Dir \<Rightarrow>
              (case readdir_fault w k of Some e \<Rightarrow> Inl e | None \<Rightarrow> Inr (entries (nodes w) k)),
          emit (Readdir p) w))"

definition rename_refusal :: "world \<Rightarrow> string list \<Rightarrow> string list \<Rightarrow> errno option" where
  "rename_refusal w ko kn =
     (if ko = [] \<or> kn = [] then Some EBUSY
      else if lookup (nodes w) ko = None then Some ENOENT
      else if lookup (nodes w) (butlast kn) \<noteq> Some Dir then Some ENOENT
      else if ko \<noteq> kn \<and> below ko kn then Some EINVAL
      else rename_fault w ko kn)"

definition fs_rename :: "string \<Rightarrow> string \<Rightarrow> world \<Rightarrow> (errno + unit) \<times> world" where
  "fs_rename oldPath newPath w =
     (let ko = resolve oldPath; kn = resolve newPath
      in case rename_refusal w ko kn of
           Some e \<Rightarrow> (Inl e, emit (Rename oldPath newPath (Some e)) w)
         | None \<Rightarrow> (Inr (), emit (Rename oldPath newPath None) (w\<lparr>nodes := move ko kn (nodes w)\<rparr>)))"

definition write_refusal :: "world \<Rightarrow> string list \<Rightarrow> errno option" where
  "write_refusal w k =
     (if k = [] \<or> lookup (nodes w) k = Some Dir then Some EISDIR
      else if lookup (nodes w) (butlast k) \<noteq> Some Dir then Some ENOENT
      else write_fault w k)"

definition fs_writeFile :: "string \<Rightarrow> string \<Rightarrow> world \<Rightarrow> (errno + unit) \<times> world" where
  "fs_writeFile p content w =
     (let k = resolve p
      in case write_refusal w k of
           Some e \<Rightarrow> (Inl e, emit (WriteFile p content (Some e)) w)
         | None \<Rightarrow> (Inr (), emit (WriteFile p content None) (w\<lparr>nodes := store k (File content) (nodes w)\<rparr>)))"

text \<open>\<open>uuid()\<close> draws the next value of the random source.\<close>

definition uuid :: "world \<Rightarrow> string \<times> world" where
  "uuid w = (uuid_v4 (random w (drawn w)), w\<lparr>drawn := Suc (drawn w)\<rparr>)"

subsection \<open>The program\<close>

definition getFiles :: "string \<Rightarrow> world \<Rightarrow> (errno + string list) \<times> world" where
  "getFiles directoryPath w =
     (case fs_readdir directoryPath w of
        (Inr fileNames, w') \<Rightarrow> (Inr fileNames, w')
      | (Inl error, w') \<Rightarrow>
          (Inl error,
           console_error (''Error while reading files from -> '' @ directoryPath @ '':'') (Some error) w'))"

definition getNewFilename :: "string \<Rightarrow> world \<Rightarrow> string \<times> world" where
  "getNewFilename fileExtension w = (case uuid w of (u, w') \<Rightarrow> (u @ fileExtension, w'))"

text \<open>
  The \<open>for ... of\<close> loop of \<open>renameProcess\<close> with its inner \<open>try\<close>/\<open>catch\<close>, over the rest of
  the snapshot, threading the counter \<open>done\<close> and the world.
\<close>

fun rename_each :: "string \<Rightarrow> nat \<Rightarrow> string list \<Rightarrow> nat \<Rightarrow> world \<Rightarrow> nat \<times> world" where
  "rename_each directoryPath total' [] done w = (done, w)"
| "rename_each directoryPath total' (fileName # rest) done w =
     (if isUUID (path_parse_name fileName) then rename_each directoryPath total' rest done w
      else
        (case getNewFilename (path_extname fileName) w of
           (newFileName, w1) \<Rightarrow>
             (case fs_rename (path_join [directoryPath, fileName])
                     (path_join [directoryPath, newFileName]) w1 of
                (Inr _, w2) \<Rightarrow>
                  rename_each directoryPath total' rest (done + 1)
                    (console_log (''Processing '' @ fileName @ '' ('' @ dec (done + 1) @ ''/''
                       @ dec total' @ '')'') w2)
              | (Inl error, w2) \<Rightarrow>
                  rename_each directoryPath total' rest done
                    (console_error (''Error while renaming file -> '' @ fileName @ '':'')
                       (Some error) w2))))"

text \<open>
  The body of the outer \<open>try\<close> block. \<open>Inl\<close> is an exception leaving the block. The function
  itself returns nothing; the embedding returns the final value of \<open>done\<close>, and \<open>None\<close> on
  the early return, before the counter exists.
\<close>

definition renameProcess_try :: "string \<Rightarrow> world \<Rightarrow> (errno + nat option) \<times> world" where
  "renameProcess_try directoryPath w =
     (case fs_stat directoryPath w of
        (st, w1) \<Rightarrow>
          let directoryExists = (case st of Inr n \<Rightarrow> n = Dir | Inl _ \<Rightarrow> False)
          in if \<not> directoryExists
             then (Inr None, console_error (''Directory does not exist: '' @ directoryPath) None w1)
             else
               (case getFiles directoryPath w1 of
                  (Inl error, w2) \<Rightarrow> (Inl error, w2)
                | (Inr fileNames, w2) \<Rightarrow>
                    (case rename_each directoryPath (length fileNames) fileNames 0
                            (console_log ''Started renaming process.'' w2) of
                       (done, w3) \<Rightarrow>
                         (Inr (Some done), console_log ''Renaming process completed.'' w3))))"

text \<open>
  \<open>renameProcess\<close>: the result is how the promise settles, \<open>Inl\<close> for a rejection that
  reaches the caller.
\<close>

definition renameProcess :: "string \<Rightarrow> world \<Rightarrow> (errno + nat option) \<times> world" where
  "renameProcess directoryName w =
     (let directoryPath = path_join [module_dir w, ''../'', directoryName]
      in case renameProcess_try directoryPath w of
           (Inl error, w') \<Rightarrow> (Inr None, console_error ''Error in renameProcess:'' (Some error) w')
         | (Inr r, w') \<Rightarrow> (Inr r, w'))"

definition startRenameFilesService :: "world \<Rightarrow> (errno + nat option) \<times> world" where
  "startRenameFilesService w = renameProcess ''files'' w"





subsection \<open>Observations used to state the properties\<close>

text \<open>What a run adds to the trace, and the calls and error lines found in a piece of trace.\<close>

definition new_events :: "world \<Rightarrow> world \<Rightarrow> event list" where
  "new_events w w' = drop (length (trace w)) (trace w')"

fun renames :: "event list \<Rightarrow> (string \<times> string \<times> errno option) list" where
  "renames [] = []"
| "renames (Rename a b r # es) = (a, b, r) # renames es"
| "renames (e # es) = renames es"

fun writes :: "event list \<Rightarrow> (string \<times> string \<times> errno option) list" where
  "writes [] = []"
| "writes (WriteFile p c r # es) = (p, c, r) # writes es"
| "writes (e # es) = writes es"

fun errors :: "event list \<Rightarrow> (string \<times> errno option) list" where
  "errors [] = []"
| "errors (Error m r # es) = (m, r) # errors es"
| "errors (e # es) = errors es"

fun readdirs :: "event list \<Rightarrow> string list" where
  "readdirs [] = []"
| "readdirs (Readdir p # es) = p # readdirs es"
| "readdirs (e # es) = readdirs es"

text \<open>Whether \<open>fs.stat\<close> finds a directory at a path.\<close>

definition directory_at :: "world \<Rightarrow> string \<Rightarrow> bool" where
  "directory_at w p \<longleftrightarrow>
     (case locate (nodes w) p of Inl e \<Rightarrow> False | Inr k \<Rightarrow> lookup (nodes w) k = Some Dir)"

text \<open>
  The name of a directory entry: not empty, not \<open>.\<close> or \<open>..\<close>, no separator. The directory
  a path denotes, as the list of its entry names.
\<close>

definition entry_name :: "string \<Rightarrow> bool" where
  "entry_name f \<longleftrightarrow> f \<noteq> [] \<and> f \<noteq> ''.'' \<and> f \<noteq> ''..'' \<and> CHR ''/'' \<notin> set f"

definition listing :: "world \<Rightarrow> string \<Rightarrow> string list" where
  "listing w p = entries (nodes w) (resolve p)"

text \<open>
  The names the loop asks for when it renames the entries \<open>fs\<close> one after the other, the
  random source standing at its \<open>k\<close>-th value: an identifier followed by the extension.
\<close>

fun fresh_names :: "(nat \<Rightarrow> nat) \<Rightarrow> nat \<Rightarrow> string list \<Rightarrow> string list" where
  "fresh_names rnd k [] = []"
| "fresh_names rnd k (f # fs) = (uuid_v4 (rnd k) @ path_extname f) # fresh_names rnd (Suc k) fs"

text \<open>The path \<open>renameProcess\<close> works on, given the name it is called with.\<close>

definition directory_path :: "world \<Rightarrow> string \<Rightarrow> string" where
  "directory_path w directoryName = path_join [module_dir w, ''../'', directoryName]"

text \<open>
  Small worlds for the examples: the program lives in \<open>/s\<close>; the directory \<open>/d\<close> holds two
  files, or a file and one that already carries an identifier; the system may refuse to list
  \<open>/d\<close>, or to rename \<open>/d/a.b\<close>; \<open>/d\<close> may hold a directory where a file is to be written.
\<close>

definition plain_world :: world where
  "plain_world =
     \<lparr>module_dir = ''/s'',
      nodes = [([''s''], Dir), ([''d''], Dir), ([''d'', ''a.b''], File ''x''),
               ([''d'', ''report''], File ''y'')],
      readdir_fault = Map.empty, rename_fault = (\<lambda>ko. Map.empty), write_fault = Map.empty,
      random = (\<lambda>k. k), drawn = 0, trace = []\<rparr>"

definition mixed_world :: world where
  "mixed_world =
     plain_world\<lparr>nodes := [([''s''], Dir), ([''d''], Dir), ([''d'', ''a.b''], File ''x''),
        ([''d'', ''A1b2C3d4-e5F6-07a8-f9b0-c1d2e3f4A5B6.png''], File ''z'')]\<rparr>"

definition unreadable_world :: world where
  "unreadable_world = plain_world\<lparr>readdir_fault := Map.empty([''d''] \<mapsto> EACCES)\<rparr>"

definition locked_world :: world where
  "locked_world = plain_world\<lparr>rename_fault := (\<lambda>ko. if ko = [''d'', ''a.b''] then (\<lambda>kn. Some EPERM) else Map.empty)\<rparr>"


subsection \<open>Auxiliary notions of the proofs\<close>

text \<open>Segments that normalisation keeps as they are.\<close>

abbreviation N :: "bool \<Rightarrow> string list \<Rightarrow> string list \<Rightarrow> string list" where
  "N \<equiv> normalize_segments"

definition clean :: "string \<Rightarrow> bool" where
  "clean x \<longleftrightarrow> x \<noteq> [] \<and> x \<noteq> ''.'' \<and> x \<noteq> ''..''"

text \<open>
  The walk that asks for an existing directory at every step, and the file systems that are
  trees: whatever exists lies in a directory.
\<close>

fun strict_reach :: "(string list \<times> node) list \<Rightarrow> string list \<Rightarrow> string list \<Rightarrow> errno + string list" where
  "strict_reach ns cur [] = Inr cur"
| "strict_reach ns cur (seg # segs) =
     (case lookup ns cur of
        None \<Rightarrow> Inl ENOENT
      | Some (File _) \<Rightarrow> Inl ENOTDIR
      | Some Dir \<Rightarrow>
          strict_reach ns
            (if seg = [] \<or> seg = ''.'' then cur else if seg = ''..'' then butlast cur else cur @ [seg])
            segs)"

definition tree :: "(string list \<times> node) list \<Rightarrow> bool" where
  "tree ns \<longleftrightarrow> (\<forall>k. k \<noteq> [] \<and> lookup ns k \<noteq> None \<longrightarrow> lookup ns (butlast k) = Some Dir)"

text \<open>The keys directly under a directory.\<close>

definition child :: "string list \<Rightarrow> string list \<Rightarrow> bool" where
  "child kd k \<longleftrightarrow> k \<noteq> [] \<and> butlast k = kd"

text \<open>
  One turn of the loop of \<open>renameProcess\<close> on an entry that is not skipped: counter and
  world after the rename call and the line that reports it.
\<close>

definition turn :: "string \<Rightarrow> nat \<Rightarrow> string \<Rightarrow> nat \<Rightarrow> world \<Rightarrow> nat \<times> world" where
  "turn d t f n w =
     (case fs_rename (path_join [d, f]) (path_join [d, uuid_v4 (random w (drawn w)) @ path_extname f])
             (w\<lparr>drawn := Suc (drawn w)\<rparr>) of
        (Inr _, w2) \<Rightarrow>
          (n + 1, console_log (''Processing '' @ f @ '' ('' @ dec (n + 1) @ ''/'' @ dec t @ '')'') w2)
      | (Inl e, w2) \<Rightarrow>
          (n, console_error (''Error while renaming file -> '' @ f @ '':'') (Some e) w2))"

text \<open>
  The world when the loop of \<open>renameProcess\<close> starts, after the stat call, the listing and
  the start line; and the loop run from there over the whole listing.
\<close>

definition started :: "world \<Rightarrow> string \<Rightarrow> world" where
  "started w d = w\<lparr>trace := trace w @ [Stat d, Readdir d, Log ''Started renaming process.'']\<rparr>"

definition the_loop :: "world \<Rightarrow> string \<Rightarrow> nat \<times> world" where
  "the_loop w d = rename_each d (length (listing w d)) (listing w d) 0 (started w d)"

text \<open>
  What the loop leaves in the trace when it starts with the counter at \<open>n\<close> and ends
  with it at \<open>n'\<close>: one rename call for each entry of \<open>todo\<close>, in order, towards the names
  of \<open>fresh_names\<close>; the counter grown by the number of calls that succeeded; one error
  line for each call that failed; no other file-system call.
\<close>

definition run_ok :: "string \<Rightarrow> string list \<Rightarrow> (nat \<Rightarrow> nat) \<Rightarrow> nat \<Rightarrow> nat \<Rightarrow> nat \<Rightarrow> event list \<Rightarrow> bool" where
  "run_ok d todo rnd k n n' es \<longleftrightarrow>
     map fst (renames es) = map (\<lambda>f. path_join [d, f]) todo
     \<and> map (fst \<circ> snd) (renames es) = map (\<lambda>g. path_join [d, g]) (fresh_names rnd k todo)
     \<and> n' = n + length (filter (\<lambda>x. snd (snd x) = None) (renames es))
     \<and> errors es = map (\<lambda>fx. (''Error while renaming file -> '' @ fst fx @ '':'', snd (snd (snd fx))))
          (filter (\<lambda>fx. snd (snd (snd fx)) \<noteq> None) (zip todo (renames es)))
     \<and> readdirs es = [] \<and> writes es = []"


section \<open>The identifier pattern\<close>

lemma hex_iff: "hex c = is_hex_digit c"
proof -
  have eq: "\<And>d. (c = d) = ((of_char c :: nat) = of_char d)" by simp
  show ?thesis
    unfolding hex_def is_hex_digit_def less_eq_char_def
    by (simp add: eq del: of_char_eq_iff) arith
qed

lemma matches_Lit_drop:
  "matches (Lit c # as) (drop k s) = (k < length s \<and> s ! k = c \<and> matches as (drop (Suc k) s))"
proof (cases "k < length s")
  case True
  then have "drop k s = s ! k # drop (Suc k) s" by (simp add: Cons_nth_drop_Suc)
  with True show ?thesis by simp
next
  case False
  then show ?thesis by simp
qed

lemma list_all_take_drop:
  "k + n \<le> length s \<Longrightarrow> list_all P (take n (drop k s)) = list_all (\<lambda>i. P (s ! i)) [k..<k + n]"
  by (simp add: list_all_length)

lemma matches_Rep_drop:
  "0 < n \<Longrightarrow> matches (Rep P n # as) (drop k s) =
     (k + n \<le> length s \<and> list_all (\<lambda>i. P (s ! i)) [k..<k + n] \<and> matches as (drop (k + n) s))"
proof (cases "k + n \<le> length s")
  case True
  then show ?thesis using list_all_take_drop [OF True, of P] by (auto simp: add.commute)
next
  case False
  moreover assume "0 < n"
  ultimately show ?thesis by auto
qed

lemma matches_Nil_drop: "matches [] (drop k s) = (length s \<le> k)"
  by simp

lemma isUUID_positions:
  "isUUID s = (length s = 36 \<and> list_all (\<lambda>i. hex (s ! i)) [0..<8] \<and> s ! 8 = CHR ''-''
     \<and> list_all (\<lambda>i. hex (s ! i)) [9..<13] \<and> s ! 13 = CHR ''-''
     \<and> list_all (\<lambda>i. hex (s ! i)) [14..<18] \<and> s ! 18 = CHR ''-''
     \<and> list_all (\<lambda>i. hex (s ! i)) [19..<23] \<and> s ! 23 = CHR ''-''
     \<and> list_all (\<lambda>i. hex (s ! i)) [24..<36])"
proof -
  have "isUUID s = matches [Rep hex 8, Lit CHR ''-'', Rep hex 4, Lit CHR ''-'', Rep hex 4,
     Lit CHR ''-'', Rep hex 4, Lit CHR ''-'', Rep hex 12] (drop 0 s)"
    by (simp add: isUUID_def)
  also have "\<dots> = (length s = 36 \<and> list_all (\<lambda>i. hex (s ! i)) [0..<8] \<and> s ! 8 = CHR ''-''
     \<and> list_all (\<lambda>i. hex (s ! i)) [9..<13] \<and> s ! 13 = CHR ''-''
     \<and> list_all (\<lambda>i. hex (s ! i)) [14..<18] \<and> s ! 18 = CHR ''-''
     \<and> list_all (\<lambda>i. hex (s ! i)) [19..<23] \<and> s ! 23 = CHR ''-''
     \<and> list_all (\<lambda>i. hex (s ! i)) [24..<36])"
    by (simp only: matches_Rep_drop matches_Lit_drop matches_Nil_drop zero_less_numeral
          add_0 add_Suc numeral_plus_numeral Suc_numeral semiring_norm) auto
  finally show ?thesis .
qed

lemma canonical_positions:
  "canonical_identifier s = (length s = 36 \<and> list_all (\<lambda>i. is_hex_digit (s ! i)) [0..<8] \<and> s ! 8 = CHR ''-''
     \<and> list_all (\<lambda>i. is_hex_digit (s ! i)) [9..<13] \<and> s ! 13 = CHR ''-''
     \<and> list_all (\<lambda>i. is_hex_digit (s ! i)) [14..<18] \<and> s ! 18 = CHR ''-''
     \<and> list_all (\<lambda>i. is_hex_digit (s ! i)) [19..<23] \<and> s ! 23 = CHR ''-''
     \<and> list_all (\<lambda>i. is_hex_digit (s ! i)) [24..<36])"
proof -
  have all: "[0..<36] = [0, 1, 2, 3, 4, 5, 6, 7, 8, 9, 10, 11, 12, 13, 14, 15, 16, 17, 18, 19, 20,
      21, 22, 23, 24, 25, 26, 27, 28, 29, 30, 31, 32, 33, 34, 35::nat]"
    by code_simp
  have g1: "[0..<8] = [0, 1, 2, 3, 4, 5, 6, 7::nat]" by code_simp
  show ?thesis
    unfolding canonical_identifier_def all g1 by (simp add: upt_rec_numeral del: upt_Suc)
qed

lemma isUUID_length: "isUUID s \<Longrightarrow> length s = 36"
  by (simp add: isUUID_positions)

text \<open>
  Claim C7. \<open>isUUID\<close> accepts exactly the strings of 36 characters that carry a dash at
  positions 8, 13, 18 and 23 and a hexadecimal digit of either case at every other position,
  with no condition on version or variant digits. Every accepted string has length 36, so a
  string that merely contains an identifier, with anything before or after it, is rejected.
\<close>

theorem isUUID_exact:
  "(isUUID s \<longleftrightarrow> canonical_identifier s) \<and> (isUUID s \<longrightarrow> length s = 36)
     \<and> (isUUID u \<and> (p \<noteq> [] \<or> q \<noteq> []) \<longrightarrow> \<not> isUUID (p @ u @ q))"
proof (intro conjI impI)
  show "isUUID s \<longleftrightarrow> canonical_identifier s"
    by (simp add: isUUID_positions canonical_positions hex_iff)
  show "isUUID s \<Longrightarrow> length s = 36" by (rule isUUID_length)
  show "\<not> isUUID (p @ u @ q)" if "isUUID u \<and> (p \<noteq> [] \<or> q \<noteq> [])"
  proof
    assume "isUUID (p @ u @ q)"
    then have "length (p @ u @ q) = 36" by (rule isUUID_length)
    moreover have "length u = 36" using that by (simp add: isUUID_length)
    ultimately show False using that by auto
  qed
qed


theorem isUUID_exact_witness:
  "isUUID ''A1b2C3d4-e5F6-07a8-f9b0-c1d2e3f4A5B6''
   \<and> canonical_identifier ''A1b2C3d4-e5F6-07a8-f9b0-c1d2e3f4A5B6''
   \<and> \<not> isUUID (''x'' @ ''A1b2C3d4-e5F6-07a8-f9b0-c1d2e3f4A5B6'' @ [])"
proof -
  have a: "isUUID ''A1b2C3d4-e5F6-07a8-f9b0-c1d2e3f4A5B6''" by code_simp
  from a isUUID_exact [of "''A1b2C3d4-e5F6-07a8-f9b0-c1d2e3f4A5B6''"
      "''A1b2C3d4-e5F6-07a8-f9b0-c1d2e3f4A5B6''" "''x''" "[]"]
  show ?thesis by simp
qed

section \<open>Generated identifiers and extensions\<close>

lemma matches_Rep_append:
  "length xs = n \<Longrightarrow> matches (Rep P n # as) (xs @ r) = (list_all P xs \<and> matches as r)"
  by simp

lemma matches_chars:
  "matches as s \<Longrightarrow> c \<in> set s \<Longrightarrow> \<exists>a\<in>set as. (case a of Rep P n \<Rightarrow> P c | Lit d \<Rightarrow> c = d)"
proof (induction as s rule: matches.induct)
  case (1 s)
  then show ?case by simp
next
  case (2 d as s)
  then obtain xs where s: "s = d # xs" and m: "matches as xs"
    by (auto split: list.splits)
  show ?case
  proof (cases "c = d")
    case True
    then show ?thesis by simp
  next
    case False
    with 2(3) s have "c \<in> set xs" by simp
    from 2(1) [OF s m this] show ?thesis by auto
  qed
next
  case (3 P n as s)
  then have a: "list_all P (take n s)" and m: "matches as (drop n s)" by auto
  have "set s = set (take n s) \<union> set (drop n s)"
    by (metis append_take_drop_id set_append)
  with 3(3) consider "c \<in> set (take n s)" | "c \<in> set (drop n s)" by auto
  then show ?case
  proof cases
    case 1
    with a have "P c" by (simp add: list_all_iff)
    then show ?thesis by simp
  next
    case 2
    from 3(1) [OF m 2] show ?thesis by auto
  qed
qed

lemma matches_Rep_last: "length xs = n \<Longrightarrow> matches [Rep P n] xs = list_all P xs"
  by simp

lemma isUUID_chars: "isUUID s \<Longrightarrow> c \<in> set s \<Longrightarrow> hex c \<or> c = CHR ''-''"
  unfolding isUUID_def by (drule matches_chars) auto

lemma hex_not_dot_slash: "hex c \<Longrightarrow> c \<noteq> CHR ''.'' \<and> c \<noteq> CHR ''/''"
  by (auto simp: hex_iff is_hex_digit_def)

lemma isUUID_no_dot: "isUUID s \<Longrightarrow> CHR ''.'' \<notin> set s"
  using isUUID_chars hex_not_dot_slash by fastforce

lemma isUUID_no_slash: "isUUID s \<Longrightarrow> CHR ''/'' \<notin> set s"
  using isUUID_chars hex_not_dot_slash by fastforce

lemma hex_hex_digit: "hex (hex_digit n)"
proof -
  have all: "[0..<16] = [0, 1, 2, 3, 4, 5, 6, 7, 8, 9, 10, 11, 12, 13, 14, 15::nat]"
    by code_simp
  have "n mod 16 \<in> set [0..<16]" by simp
  then have "n mod 16 \<in> {0, 1, 2, 3, 4, 5, 6, 7, 8, 9, 10, 11, 12, 13, 14, 15}"
    unfolding all by simp
  then show ?thesis
    unfolding hex_digit_def hex_iff is_hex_digit_def by (auto simp: nth_Cons')
qed

lemma length_bytes_to_hex: "length (bytes_to_hex bs) = 2 * length bs"
  by (induction bs) (simp_all add: bytes_to_hex_def byte_to_hex_def)

lemma hex_bytes_to_hex: "list_all hex (bytes_to_hex bs)"
  by (induction bs) (simp_all add: bytes_to_hex_def byte_to_hex_def hex_hex_digit)

lemma length_le_bytes: "length (le_bytes k r) = k"
  by (induction k arbitrary: r) simp_all

lemma length_v4_bytes: "length (v4_bytes r) = 16"
  by (simp add: v4_bytes_def rnd_bytes_def length_le_bytes Let_def)

lemma isUUID_stringify: "length arr = 16 \<Longrightarrow> isUUID (stringify arr)"
  unfolding isUUID_def stringify_def
  by (simp add: matches_Rep_append matches_Rep_last length_bytes_to_hex hex_bytes_to_hex
        del: matches.simps(3))

lemma isUUID_uuid_v4: "isUUID (uuid_v4 r)"
  by (simp add: uuid_v4_def isUUID_stringify length_v4_bytes)

lemma last_portion_plain: "CHR ''/'' \<notin> set f \<Longrightarrow> last_portion f = f"
proof -
  assume a: "CHR ''/'' \<notin> set f"
  then have "dropWhile (\<lambda>c. c = CHR ''/'') (rev f) = rev f"
    by (cases "rev f") (auto simp: rev_eq_Cons_iff)
  moreover from a have "takeWhile (\<lambda>c. c \<noteq> CHR ''/'') (rev f) = rev f"
    by (auto simp: takeWhile_eq_all_conv)
  ultimately show ?thesis unfolding last_portion_def by (simp only: rev_rev_ident)
qed

lemma last_portion_no_slash: "CHR ''/'' \<notin> set (last_portion p)"
  unfolding last_portion_def using set_takeWhileD by fastforce

lemma split_ext_no_dot: "CHR ''.'' \<notin> set base \<Longrightarrow> split_ext base = (base, [])"
  by (simp add: split_ext_def Let_def)

lemma split_ext_dot:
  assumes "u \<noteq> []" "CHR ''.'' \<notin> set x" "u @ CHR ''.'' # x \<noteq> ''..''"
  shows "split_ext (u @ CHR ''.'' # x) = (u, CHR ''.'' # x)"
proof -
  have t: "takeWhile (\<lambda>c. c \<noteq> CHR ''.'') (rev x @ CHR ''.'' # rev u) = rev x"
    using assms(2) by (subst takeWhile_append2) auto
  show ?thesis
    using assms by (simp add: split_ext_def Let_def t)
qed

lemma split_ext_leading_dot:
  assumes "CHR ''.'' \<notin> set x"
  shows "split_ext (CHR ''.'' # x) = (CHR ''.'' # x, [])"
proof -
  have t: "takeWhile (\<lambda>c. c \<noteq> CHR ''.'') (rev x @ [CHR ''.'']) = rev x"
    using assms by (subst takeWhile_append2) auto
  show ?thesis
    by (simp add: split_ext_def Let_def t)
qed

lemma split_ext_shape:
  "snd (split_ext base) = [] \<or> (\<exists>x. snd (split_ext base) = CHR ''.'' # x \<and> CHR ''.'' \<notin> set x \<and> set x \<subseteq> set base)"
proof (cases "CHR ''.'' \<notin> set base \<or> drop (Suc (length (takeWhile (\<lambda>c. c \<noteq> CHR ''.'') (rev base)))) (rev base) = [] \<or> base = ''..''")
  case True
  then show ?thesis by (simp add: split_ext_def Let_def)
next
  case False
  have "set (takeWhile (\<lambda>c. c \<noteq> CHR ''.'') (rev base)) \<subseteq> set base"
    using set_takeWhileD by fastforce
  moreover have "CHR ''.'' \<notin> set (takeWhile (\<lambda>c. c \<noteq> CHR ''.'') (rev base))"
    using set_takeWhileD by fastforce
  ultimately show ?thesis using False by (simp add: split_ext_def Let_def)
qed

lemma path_extname_shape:
  "path_extname f = [] \<or> (\<exists>x. path_extname f = CHR ''.'' # x \<and> CHR ''.'' \<notin> set x \<and> CHR ''/'' \<notin> set x)"
  using split_ext_shape [of "last_portion f"] last_portion_no_slash [of f]
  unfolding path_extname_def by auto

lemma path_extname_no_slash: "CHR ''/'' \<notin> set (path_extname f)"
  using path_extname_shape [of f] by auto

lemma parse_generated:
  assumes "isUUID u"
  shows "path_parse_name (u @ path_extname f) = u" and "path_extname (u @ path_extname f) = path_extname f"
proof -
  have nd: "CHR ''.'' \<notin> set u" and ns: "CHR ''/'' \<notin> set u"
    using assms by (simp_all add: isUUID_no_dot isUUID_no_slash)
  have ne: "u \<noteq> []" using isUUID_length [OF assms] by auto
  have lp: "last_portion (u @ path_extname f) = u @ path_extname f"
    using ns path_extname_no_slash [of f] by (simp add: last_portion_plain)
  have "split_ext (u @ path_extname f) = (u, path_extname f)"
  proof (cases "path_extname f = []")
    case True
    then show ?thesis using nd by (simp add: split_ext_no_dot)
  next
    case False
    then obtain x where x: "path_extname f = CHR ''.'' # x" "CHR ''.'' \<notin> set x"
      using path_extname_shape [of f] by auto
    have "u @ CHR ''.'' # x \<noteq> ''..''"
      using nd ne by (cases u) auto
    with x ne show ?thesis by (simp add: split_ext_dot)
  qed
  then have se: "split_ext (last_portion (u @ path_extname f)) = (u, path_extname f)"
    by (simp only: lp)
  show "path_parse_name (u @ path_extname f) = u"
    by (simp only: path_parse_name_def [of "u @ path_extname f"] se fst_conv)
  show "path_extname (u @ path_extname f) = path_extname f"
    by (simp only: path_extname_def [of "u @ path_extname f"] se snd_conv)
qed

lemma extname_no_dot:
  assumes "CHR ''.'' \<notin> set f" "CHR ''/'' \<notin> set f"
  shows "path_extname f = []" and "path_parse_name f = f"
  using assms by (simp_all add: path_extname_def path_parse_name_def last_portion_plain split_ext_no_dot)

lemma extname_leading_dot:
  assumes "CHR ''.'' \<notin> set x" "CHR ''/'' \<notin> set x"
  shows "path_extname (CHR ''.'' # x) = []" and "path_parse_name (CHR ''.'' # x) = CHR ''.'' # x"
  using assms
  by (simp_all add: path_extname_def path_parse_name_def last_portion_plain split_ext_leading_dot)

lemma isUUID_hd_hex: "isUUID s \<Longrightarrow> hex (hd s)"
  by (cases s) (auto simp: isUUID_def)

lemma not_isUUID_leading_dot: "\<not> isUUID (CHR ''.'' # x)"
  using isUUID_no_dot [of "CHR ''.'' # x"] by auto

section \<open>Paths\<close>

lemma split_on_not_Nil: "split_on c s \<noteq> []"
  by (induction s) (auto split: list.splits)

lemma split_on_append: "split_on c (a @ c # b) = split_on c a @ split_on c b"
proof (induction a)
  case Nil
  show ?case by simp
next
  case (Cons x a)
  then show ?case
    using split_on_not_Nil [of c a] by (cases "split_on c a") auto
qed

lemma split_on_plain: "c \<notin> set f \<Longrightarrow> split_on c f = [f]"
  by (induction f) auto

lemma split_on_free: "x \<in> set (split_on c s) \<Longrightarrow> c \<notin> set x"
  by (induction s arbitrary: x) (auto split: if_splits list.splits)

lemma split_join:
  "xs \<noteq> [] \<Longrightarrow> \<forall>x\<in>set xs. c \<notin> set x \<Longrightarrow> split_on c (join_with [c] xs) = xs"
proof (induction "[c]" xs rule: join_with.induct)
  case 1
  then show ?case by simp
next
  case (2 x)
  then show ?case by (simp add: split_on_plain)
next
  case (3 x y ys)
  then show ?case by (simp add: split_on_append split_on_plain)
qed

lemma join_with_not_Nil: "xs \<noteq> [] \<Longrightarrow> \<forall>x\<in>set xs. x \<noteq> [] \<Longrightarrow> join_with s xs \<noteq> []"
  by (induction s xs rule: join_with.induct) auto

lemma N_append: "N a acc (xs @ ys) = N a (rev (N a acc xs)) ys"
  by (induction xs arbitrary: acc) (auto split: list.splits)

lemma N_clean: "\<forall>x\<in>set xs. clean x \<Longrightarrow> N a acc xs = rev acc @ xs"
  by (induction xs arbitrary: acc) (auto simp: clean_def)

lemma N_False_clean: "\<forall>x\<in>set acc. clean x \<Longrightarrow> x \<in> set (N False acc xs) \<Longrightarrow> clean x"
proof (induction xs arbitrary: acc)
  case Nil
  then show ?case by simp
next
  case (Cons s xs)
  note IH = Cons.IH and prems = Cons.prems
  show ?case
  proof (cases "s = [] \<or> s = ''.''")
    case True
    with prems have "x \<in> set (N False acc xs)" by auto
    with prems(1) show ?thesis by (rule IH)
  next
    case False
    show ?thesis
    proof (cases "s = ''..''")
      case True
      show ?thesis
      proof (cases acc)
        case Nil
        with prems True have "x \<in> set (N False [] xs)" by simp
        then show ?thesis using IH [of "[]"] by simp
      next
        case (Cons t ts)
        with prems True have "x \<in> set (N False ts xs)" "\<forall>x\<in>set ts. clean x"
          by (auto simp: clean_def)
        then show ?thesis using IH by blast
      qed
    next
      case F2: False
      with False prems have "x \<in> set (N False (s # acc) xs)" "\<forall>x\<in>set (s # acc). clean x"
        by (auto simp: clean_def)
      then show ?thesis using IH by blast
    qed
  qed
qed

lemma N_subset: "x \<in> set (N a acc xs) \<Longrightarrow> x \<in> set acc \<or> x \<in> set xs \<or> x = ''..''"
proof (induction xs arbitrary: acc)
  case Nil
  then show ?case by simp
next
  case (Cons s xs)
  note IH = Cons.IH and prems = Cons.prems
  show ?case
  proof (cases "s = [] \<or> s = ''.''")
    case True
    with prems have "x \<in> set (N a acc xs)" by auto
    from IH [OF this] show ?thesis by auto
  next
    case False
    show ?thesis
    proof (cases "s = ''..''")
      case True
      show ?thesis
      proof (cases acc)
        case Nil
        with prems True have "x \<in> set (N a (if a then [''..''] else []) xs)"
          by (cases a) simp_all
        from IH [OF this] Nil show ?thesis by (auto split: if_splits)
      next
        case (Cons t ts)
        show ?thesis
        proof (cases "t = ''..''")
          case T: True
          with prems True Cons
          have "x \<in> set (N a (if a then ''..'' # acc else acc) xs)" by (cases a) simp_all
          from IH [OF this] show ?thesis by (auto split: if_splits)
        next
          case F: False
          with prems True Cons have "x \<in> set (N a ts xs)" by simp
          from IH [OF this] Cons show ?thesis by auto
        qed
      qed
    next
      case F2: False
      with False prems have "x \<in> set (N a (s # acc) xs)" by simp
      from IH [OF this] show ?thesis by auto
    qed
  qed
qed

lemma N_up_root: "N False [] (replicate k ''..'' @ ys) = N False [] ys"
  by (induction k) simp_all

lemma N_relative:
  "\<forall>x\<in>set acc. clean x \<Longrightarrow> N False [] (N True (acc @ replicate k ''..'') ss) = N False acc ss"
proof (induction ss arbitrary: acc k)
  case Nil
  have "N False [] (rev acc) = rev acc"
    using Nil by (subst N_clean) auto
  then show ?case by (simp add: N_up_root)
next
  case (Cons s ss)
  note IH = Cons.IH and prems = Cons.prems
  show ?case
  proof (cases "s = [] \<or> s = ''.''")
    case True
    with IH [OF prems, of k] show ?thesis by auto
  next
    case False
    show ?thesis
    proof (cases "s = ''..''")
      case True
      show ?thesis
      proof (cases acc)
        case Nil
        have "N True (replicate k ''..'') (s # ss) = N True ([] @ replicate (Suc k) ''..'') ss"
          using True by (cases k) simp_all
        with IH [of "[]" "Suc k"] Nil True show ?thesis by simp
      next
        case (Cons t ts)
        with prems have t: "t \<noteq> ''..''" and ts: "\<forall>x\<in>set ts. clean x"
          by (auto simp: clean_def)
        from IH [OF ts, of k] t True Cons show ?thesis by simp
      qed
    next
      case F2: False
      with False prems have "\<forall>x\<in>set (s # acc). clean x" by (auto simp: clean_def)
      from IH [OF this, of k] False F2 show ?thesis by simp
    qed
  qed
qed

lemma resolve_clean: "x \<in> set (resolve p) \<Longrightarrow> clean x \<and> CHR ''/'' \<notin> set x"
proof
  assume x: "x \<in> set (resolve p)"
  then show "clean x" unfolding resolve_def using N_False_clean [of "[]"] by auto
  from x have "x \<in> set (split_on CHR ''/'' p) \<or> x = ''..''"
    unfolding resolve_def using N_subset [of x False "[]"] by auto
  then show "CHR ''/'' \<notin> set x" using split_on_free by auto
qed

lemma N_resolve: "N False [] (resolve p) = resolve p"
  using resolve_clean [of _ p] by (subst N_clean) auto

lemma N_empty_seg: "N a acc ([] # xs) = N a acc xs"
  by simp

lemma N_trailing_empty: "N a acc (xs @ [] # []) = N a acc xs"
  by (simp add: N_append)

lemma N_nonempty: "\<forall>x\<in>set acc. x \<noteq> [] \<Longrightarrow> x \<in> set (N a acc xs) \<Longrightarrow> x \<noteq> []"
proof (induction xs arbitrary: acc)
  case Nil
  then show ?case by auto
next
  case (Cons s xs)
  note IH = Cons.IH and prems = Cons.prems
  show ?case
  proof (cases "s = [] \<or> s = ''.''")
    case True
    with prems have "x \<in> set (N a acc xs)" by auto
    with prems(1) show ?thesis by (rule IH)
  next
    case False
    show ?thesis
    proof (cases "s = ''..''")
      case True
      show ?thesis
      proof (cases acc)
        case Nil
        with prems True have "x \<in> set (N a (if a then [''..''] else []) xs)"
          by (cases a) simp_all
        moreover have "\<forall>x\<in>set (if a then [''..''] else []). x \<noteq> []" by simp
        ultimately show ?thesis using IH by blast
      next
        case (Cons t ts)
        show ?thesis
        proof (cases "t = ''..''")
          case T: True
          with prems True Cons
          have "x \<in> set (N a (if a then ''..'' # acc else acc) xs)" by (cases a) simp_all
          moreover have "\<forall>x\<in>set (if a then ''..'' # acc else acc). x \<noteq> []"
            using prems(1) by simp
          ultimately show ?thesis using IH by blast
        next
          case F: False
          with prems True Cons have "x \<in> set (N a ts xs)" "\<forall>x\<in>set ts. x \<noteq> []" by simp_all
          then show ?thesis using IH by blast
        qed
      qed
    next
      case F2: False
      with False prems have "x \<in> set (N a (s # acc) xs)" "\<forall>x\<in>set (s # acc). x \<noteq> []" by simp_all
      then show ?thesis using IH by blast
    qed
  qed
qed

lemma N_to_root: "N False [] (N a [] ss) = N False [] ss"
proof (cases a)
  case True
  then show ?thesis using N_relative [of "[]" 0 ss] by simp
next
  case False
  have "\<forall>x\<in>set (N False [] ss). clean x" using N_False_clean [of "[]"] by auto
  then have "N False [] (N False [] ss) = N False [] ss" by (subst N_clean) auto
  with False show ?thesis by simp
qed

lemma resolve_normalize: "resolve (path_normalize p) = resolve p"
proof (cases "p = []")
  case True
  then show ?thesis by (simp add: path_normalize_def resolve_def)
next
  case False
  define a where "a = (hd p \<noteq> CHR ''/'')"
  define segs where "segs = N a [] (split_on CHR ''/'' p)"
  have root: "N False [] segs = resolve p"
    unfolding segs_def resolve_def by (rule N_to_root)
  show ?thesis
  proof (cases "segs = []")
    case True
    then have "path_normalize p \<in> {''/'', ''./'', ''.''}"
      using False unfolding path_normalize_def segs_def a_def by (simp add: Let_def)
    then have "resolve (path_normalize p) = []" by (auto simp: resolve_def)
    with root True show ?thesis by simp
  next
    case ne: False
    have free: "\<forall>x\<in>set segs. CHR ''/'' \<notin> set x"
    proof
      fix x assume "x \<in> set segs"
      then have "x \<in> set (split_on CHR ''/'' p) \<or> x = ''..''"
        unfolding segs_def using N_subset [of x a "[]"] by auto
      then show "CHR ''/'' \<notin> set x" using split_on_free by auto
    qed
    have nonempty: "\<forall>x\<in>set segs. x \<noteq> []"
      unfolding segs_def using N_nonempty [of "[]"] by auto
    have body: "join_with ''/'' segs \<noteq> []"
      using ne nonempty by (rule join_with_not_Nil)
    have sj: "split_on CHR ''/'' (join_with ''/'' segs) = segs"
      using ne free by (rule split_join)
    have shape: "path_normalize p = (if a then [] else ''/'') @ join_with ''/'' segs
        @ (if last p = CHR ''/'' then ''/'' else [])"
      using False body unfolding path_normalize_def segs_def a_def by (simp add: Let_def)
    have "split_on CHR ''/'' (path_normalize p)
        = (if a then [] else [] # []) @ segs @ (if last p = CHR ''/'' then [] # [] else [])"
      unfolding shape using sj split_on_append [of "CHR ''/''" "join_with ''/'' segs" "[]"]
      by auto
    then have "resolve (path_normalize p) = N False [] segs"
      unfolding resolve_def by (auto simp: N_append)
    with root show ?thesis by simp
  qed
qed

lemma resolve_join: "resolve (path_join args) = resolve (join_with ''/'' (filter (\<lambda>arg. arg \<noteq> []) args))"
  by (simp add: path_join_def Let_def resolve_normalize) (simp add: resolve_def)

lemma resolve_append: "resolve (d @ CHR ''/'' # p) = N False (rev (resolve d)) (split_on CHR ''/'' p)"
  by (simp add: resolve_def split_on_append N_append)

lemma entry_name_clean: "entry_name f \<Longrightarrow> clean f \<and> CHR ''/'' \<notin> set f"
  by (simp add: entry_name_def clean_def)

lemma resolve_entry: "entry_name f \<Longrightarrow> resolve (path_join [d, f]) = resolve d @ [f]"
proof -
  assume f: "entry_name f"
  then have ne: "f \<noteq> []" and sp: "split_on CHR ''/'' f = [f]" and cl: "clean f"
    by (auto simp: entry_name_def clean_def split_on_plain)
  have one: "N False acc [f] = rev acc @ [f]" for acc
    using cl by (subst N_clean) auto
  show ?thesis
  proof (cases "d = []")
    case True
    with ne sp one [of "[]"] show ?thesis by (simp add: resolve_join) (simp add: resolve_def)
  next
    case False
    with ne sp one show ?thesis by (simp add: resolve_join resolve_append)
  qed
qed

lemma resolve_parent:
  "resolve (path_join [md, ''../'', name])
     = N False (rev (butlast (resolve md))) (split_on CHR ''/'' name)"
proof -
  have up: "N False (rev ks) [''..'', []] = butlast ks" if "\<forall>x\<in>set ks. clean x" for ks
  proof (cases ks rule: rev_cases)
    case Nil
    then show ?thesis by simp
  next
    case (snoc ys y)
    with that have "y \<noteq> ''..''" by (auto simp: clean_def)
    with snoc show ?thesis by simp
  qed
  have cl: "\<forall>x\<in>set (resolve md). clean x" using resolve_clean by blast
  have sp: "split_on CHR ''/'' ''../'' = [''..'', []]" by simp
  have r0: "resolve [] = []" by (simp add: resolve_def)
  have mid: "resolve (md @ ''/'' @ ''../'') = butlast (resolve md)"
    using up [OF cl] by (simp add: resolve_append)
  have mid0: "resolve ''../'' = []" by (simp add: resolve_def)
  show ?thesis
  proof (cases "md = []")
    case m: True
    show ?thesis
    proof (cases "name = []")
      case True
      with m mid0 r0 show ?thesis by (simp add: resolve_join)
    next
      case False
      have "resolve (''../'' @ CHR ''/'' # name) = N False (rev (resolve ''../'')) (split_on CHR ''/'' name)"
        by (rule resolve_append)
      with m False mid0 r0 show ?thesis by (simp add: resolve_join)
    qed
  next
    case m: False
    show ?thesis
    proof (cases "name = []")
      case True
      with m mid show ?thesis by (simp add: resolve_join)
    next
      case False
      have "resolve ((md @ ''/'' @ ''../'') @ CHR ''/'' # name)
          = N False (rev (resolve (md @ ''/'' @ ''../''))) (split_on CHR ''/'' name)"
        by (rule resolve_append)
      with m False mid show ?thesis by (simp add: resolve_join)
    qed
  qed
qed

subsection \<open>Walking a path as written\<close>

lemma reach_resolve:
  "\<forall>x\<in>set cur. clean x \<Longrightarrow> reach ns cur segs = Inr k \<Longrightarrow> k = N False (rev cur) segs"
proof (induction segs arbitrary: cur)
  case Nil
  then show ?case by simp
next
  case (Cons s segs)
  note IH = Cons.IH and prems = Cons.prems
  show ?case
  proof (cases "s = [] \<or> s = ''.''")
    case True
    with prems(2) have "reach ns cur segs = Inr k"
      by (auto split: option.splits node.splits)
    from IH [OF prems(1) this] True show ?thesis by auto
  next
    case False
    show ?thesis
    proof (cases "s = ''..''")
      case True
      with prems(2) have r: "reach ns (butlast cur) segs = Inr k"
        by (auto split: option.splits node.splits)
      have cl: "\<forall>x\<in>set (butlast cur). clean x"
        using prems(1) by (auto dest: in_set_butlastD)
      show ?thesis
      proof (cases cur rule: rev_cases)
        case Nil
        with IH [OF cl r] True show ?thesis by simp
      next
        case (snoc ys y)
        with prems(1) have "y \<noteq> ''..''" by (auto simp: clean_def)
        with IH [OF cl r] True snoc show ?thesis by simp
      qed
    next
      case F2: False
      with False prems(2) have r: "reach ns (cur @ [s]) segs = Inr k" by simp
      have cl: "\<forall>x\<in>set (cur @ [s]). clean x"
        using prems(1) False F2 by (auto simp: clean_def)
      from IH [OF cl r] False F2 show ?thesis by simp
    qed
  qed
qed

lemma locate_resolve: "locate ns p = Inr k \<Longrightarrow> k = resolve p"
  unfolding locate_def resolve_def using reach_resolve [of "[]" ns] by (auto split: if_splits)

lemma reach_names: "\<forall>x\<in>set ys. clean x \<Longrightarrow> reach ns cur (ys @ rest) = reach ns (cur @ ys) rest"
  by (induction ys arbitrary: cur) (auto simp: clean_def)

lemma reach_ups: "reach ns [] (replicate k ''..'' @ rest) = reach ns [] rest"
  by (induction k) (simp_all add: lookup_def)

lemma N_True_shape:
  "\<forall>x\<in>set acc. clean x \<Longrightarrow>
     \<exists>k' ys. N True (acc @ replicate k ''..'') ss = replicate k' ''..'' @ ys \<and> (\<forall>y\<in>set ys. clean y)"
proof (induction ss arbitrary: acc k)
  case Nil
  have "N True (acc @ replicate k ''..'') [] = replicate k ''..'' @ rev acc" by simp
  with Nil show ?case by (metis set_rev)
next
  case (Cons s ss)
  note IH = Cons.IH and prems = Cons.prems
  show ?case
  proof (cases "s = [] \<or> s = ''.''")
    case True
    with IH [OF prems, of k] show ?thesis by auto
  next
    case False
    show ?thesis
    proof (cases "s = ''..''")
      case True
      show ?thesis
      proof (cases acc)
        case Nil
        have "N True (replicate k ''..'') (s # ss) = N True ([] @ replicate (Suc k) ''..'') ss"
          using True by (cases k) simp_all
        with IH [of "[]" "Suc k"] Nil show ?thesis by simp
      next
        case (Cons t ts)
        with prems have t: "t \<noteq> ''..''" and ts: "\<forall>x\<in>set ts. clean x"
          by (auto simp: clean_def)
        from IH [OF ts, of k] t True Cons show ?thesis by simp
      qed
    next
      case F2: False
      with False prems have "\<forall>x\<in>set (s # acc). clean x" by (auto simp: clean_def)
      from IH [OF this, of k] False F2 show ?thesis by simp
    qed
  qed
qed

lemma N_shape: "\<exists>k ys. N a [] ss = replicate k ''..'' @ ys \<and> (\<forall>y\<in>set ys. clean y)"
proof (cases a)
  case True
  with N_True_shape [of "[]" 0 ss] show ?thesis by simp
next
  case False
  have "\<forall>y\<in>set (N False [] ss). clean y" using N_False_clean [of "[]"] by auto
  with False show ?thesis by (intro exI [of _ 0] exI [of _ "N False [] ss"]) simp
qed

lemma locate_normalize:
  assumes "lookup ns (resolve (path_normalize q)) = Some Dir"
  shows "locate ns (path_normalize q) = Inr (resolve (path_normalize q))"
proof (cases "q = []")
  case True
  then show ?thesis by (simp add: path_normalize_def locate_def resolve_def lookup_def)
next
  case False
  define a where "a = (hd q \<noteq> CHR ''/'')"
  define segs where "segs = N a [] (split_on CHR ''/'' q)"
  show ?thesis
  proof (cases "segs = []")
    case True
    then have "path_normalize q \<in> {''/'', ''./'', ''.''}"
      using False unfolding path_normalize_def segs_def a_def by (simp add: Let_def)
    then show ?thesis by (auto simp: locate_def resolve_def lookup_def)
  next
    case ne: False
    have free: "\<forall>x\<in>set segs. CHR ''/'' \<notin> set x"
    proof
      fix x assume "x \<in> set segs"
      then have "x \<in> set (split_on CHR ''/'' q) \<or> x = ''..''"
        unfolding segs_def using N_subset [of x a "[]"] by auto
      then show "CHR ''/'' \<notin> set x" using split_on_free by auto
    qed
    have nonempty: "\<forall>x\<in>set segs. x \<noteq> []"
      unfolding segs_def using N_nonempty [of "[]"] by auto
    have body: "join_with ''/'' segs \<noteq> []"
      using ne nonempty by (rule join_with_not_Nil)
    have sj: "split_on CHR ''/'' (join_with ''/'' segs) = segs"
      using ne free by (rule split_join)
    have shape: "path_normalize q = (if a then [] else ''/'') @ join_with ''/'' segs
        @ (if last q = CHR ''/'' then ''/'' else [])"
      using False body unfolding path_normalize_def segs_def a_def by (simp add: Let_def)
    have sp: "split_on CHR ''/'' (path_normalize q)
        = (if a then [] else [] # []) @ segs @ (if last q = CHR ''/'' then [] # [] else [])"
      unfolding shape using sj split_on_append [of "CHR ''/''" "join_with ''/'' segs" "[]"]
      by auto
    from N_shape [of a "split_on CHR ''/'' q"] obtain k ys where
      ky: "segs = replicate k ''..'' @ ys" and cl: "\<forall>y\<in>set ys. clean y"
      unfolding segs_def by blast
    have core: "N False [] (replicate k ''..'' @ ys) = ys"
      using cl by (simp add: N_up_root N_clean)
    have post: "N False [] ((replicate k ''..'' @ ys) @ t) = ys" if "t = [] \<or> t = [] # []" for t
      using that core by (subst N_append) auto
    have "N False [] ((if a then [] else [] # []) @ (replicate k ''..'' @ ys)
        @ (if last q = CHR ''/'' then [] # [] else [])) = ys"
      using post [of "if last q = CHR ''/'' then [] # [] else []"] by (cases a) simp_all
    then have res: "resolve (path_normalize q) = ys"
      unfolding resolve_def sp ky .
    have nonnil: "path_normalize q \<noteq> []" using body unfolding shape by simp
    have dir: "lookup ns ys = Some Dir" using assms unfolding res .
    have walk: "reach ns [] (segs @ rest) = reach ns ys rest" for rest
      unfolding ky using reach_names [OF cl, of ns "[]" rest] by (simp add: reach_ups)
    have tail: "reach ns ys (if last q = CHR ''/'' then [] # [] else []) = Inr ys"
      using dir by simp
    have "reach ns [] (split_on CHR ''/'' (path_normalize q)) = Inr ys"
      unfolding sp using walk [of "if last q = CHR ''/'' then [] # [] else []"] tail
      by (auto simp: lookup_def)
    with nonnil res show ?thesis by (simp add: locate_def)
  qed
qed

lemma path_join_normal: "\<exists>q. path_join args = path_normalize q"
proof (cases "filter (\<lambda>arg. arg \<noteq> []) args = []")
  case True
  then have "path_join args = path_normalize []" by (simp add: path_join_def path_normalize_def)
  then show ?thesis by blast
next
  case False
  then show ?thesis by (auto simp: path_join_def Let_def)
qed

lemma directory_at_resolve: "directory_at w p \<Longrightarrow> lookup (nodes w) (resolve p) = Some Dir"
  unfolding directory_at_def by (auto split: sum.splits dest: locate_resolve)

lemma directory_at_join:
  "lookup (nodes w) (resolve (path_join args)) = Some Dir \<Longrightarrow> directory_at w (path_join args)"
proof -
  assume a: "lookup (nodes w) (resolve (path_join args)) = Some Dir"
  obtain q where q: "path_join args = path_normalize q" using path_join_normal by blast
  from a have "locate (nodes w) (path_normalize q) = Inr (resolve (path_normalize q))"
    unfolding q by (rule locate_normalize)
  with a show ?thesis unfolding directory_at_def q by simp
qed

lemma directory_at_path:
  "lookup (nodes w) (resolve (directory_path w name)) = Some Dir \<Longrightarrow> directory_at w (directory_path w name)"
  unfolding directory_path_def by (rule directory_at_join)

lemma fs_stat_directory:
  "fs_stat p w = (fst (fs_stat p w), emit (Stat p) w)"
  "(case fst (fs_stat p w) of Inr n \<Rightarrow> n = Dir | Inl e \<Rightarrow> False) = directory_at w p"
  by (auto simp: fs_stat_def directory_at_def split: sum.splits option.splits)

lemma strict_reach_first:
  "strict_reach ns cur (s # ss) = Inr k \<Longrightarrow> lookup ns cur = Some Dir"
  by (auto split: option.splits node.splits)

lemma strict_reach_reach: "strict_reach ns cur segs = Inr k \<Longrightarrow> reach ns cur segs = Inr k"
  by (induction segs arbitrary: cur) (auto split: option.splits node.splits if_splits)

lemma reach_strict_reach:
  assumes "tree ns"
  shows "reach ns cur segs = Inr k \<Longrightarrow> lookup ns k = Some Dir \<Longrightarrow> strict_reach ns cur segs = Inr k"
proof (induction segs arbitrary: cur)
  case Nil
  then show ?case by simp
next
  case (Cons s segs)
  note IH = Cons.IH and prems = Cons.prems
  show ?case
  proof (cases "s = [] \<or> s = ''.'' \<or> s = ''..''")
    case True
    with prems(1) have d: "lookup ns cur = Some Dir"
      and r: "reach ns (if s = ''..'' then butlast cur else cur) segs = Inr k"
      by (auto split: option.splits node.splits)
    from IH [OF r prems(2)] d True show ?thesis by auto
  next
    case False
    with prems(1) have r: "reach ns (cur @ [s]) segs = Inr k" by simp
    from IH [OF r prems(2)] have st: "strict_reach ns (cur @ [s]) segs = Inr k" .
    have "lookup ns (cur @ [s]) = Some Dir"
    proof (cases segs)
      case Nil
      with st prems(2) show ?thesis by simp
    next
      case (Cons t ts)
      with st have "strict_reach ns (cur @ [s]) (t # ts) = Inr k" by simp
      then show ?thesis by (rule strict_reach_first)
    qed
    then have "lookup ns (butlast (cur @ [s])) = Some Dir"
      using assms unfolding tree_def by (metis option.distinct(1) snoc_eq_iff_butlast)
    with st False show ?thesis by simp
  qed
qed

lemma directory_at_strict:
  assumes "tree (nodes w)"
  shows "directory_at w p \<longleftrightarrow>
    p \<noteq> [] \<and> (\<exists>k. strict_reach (nodes w) [] (split_on CHR ''/'' p) = Inr k \<and> lookup (nodes w) k = Some Dir)"
proof (cases "p = []")
  case True
  then show ?thesis by (simp add: directory_at_def locate_def)
next
  case False
  let ?segs = "split_on CHR ''/'' p"
  have at: "directory_at w p \<longleftrightarrow> (\<exists>k. reach (nodes w) [] ?segs = Inr k \<and> lookup (nodes w) k = Some Dir)"
    using False by (cases "reach (nodes w) [] ?segs") (simp_all add: directory_at_def locate_def)
  have "(\<exists>k. reach (nodes w) [] ?segs = Inr k \<and> lookup (nodes w) k = Some Dir)
      \<longleftrightarrow> (\<exists>k. strict_reach (nodes w) [] ?segs = Inr k \<and> lookup (nodes w) k = Some Dir)"
    using reach_strict_reach [OF assms] strict_reach_reach by blast
  with at False show ?thesis by simp
qed

section \<open>The loop of \<open>renameProcess\<close>\<close>

lemma renames_append: "renames (xs @ ys) = renames xs @ renames ys"
  by (induction xs rule: renames.induct) simp_all

lemma errors_append: "errors (xs @ ys) = errors xs @ errors ys"
  by (induction xs rule: errors.induct) simp_all



lemma new_events_append: "trace w' = trace w @ es \<Longrightarrow> new_events w w' = es"
  by (simp add: new_events_def)

lemma getNewFilename_eq:
  "getNewFilename ext w = (uuid_v4 (random w (drawn w)) @ ext, w\<lparr>drawn := Suc (drawn w)\<rparr>)"
  by (simp add: getNewFilename_def uuid_def)

lemma fs_rename_cases:
  obtains (refused) e where "rename_refusal w (resolve a) (resolve b) = Some e"
      "fs_rename a b w = (Inl e, emit (Rename a b (Some e)) w)"
  | (moved) "rename_refusal w (resolve a) (resolve b) = None"
      "fs_rename a b w =
        (Inr (), emit (Rename a b None) (w\<lparr>nodes := move (resolve a) (resolve b) (nodes w)\<rparr>))"
  by (cases "rename_refusal w (resolve a) (resolve b)") (simp_all add: fs_rename_def Let_def)

lemma rename_each_skip:
  "isUUID (path_parse_name f) \<Longrightarrow> rename_each d t (f # fs) n w = rename_each d t fs n w"
  by simp

lemma rename_each_turn:
  "\<not> isUUID (path_parse_name f) \<Longrightarrow>
     rename_each d t (f # fs) n w = rename_each d t fs (fst (turn d t f n w)) (snd (turn d t f n w))"
  by (simp add: turn_def getNewFilename_eq split: prod.splits sum.splits)

declare rename_each.simps(2) [simp del]

lemma turn_cases:
  obtains (failed) e where
      "rename_refusal (w\<lparr>drawn := Suc (drawn w)\<rparr>) (resolve (path_join [d, f]))
         (resolve (path_join [d, uuid_v4 (random w (drawn w)) @ path_extname f])) = Some e"
      "fst (turn d t f n w) = n"
      "snd (turn d t f n w) = w\<lparr>drawn := Suc (drawn w),
         trace := trace w @ [Rename (path_join [d, f])
             (path_join [d, uuid_v4 (random w (drawn w)) @ path_extname f]) (Some e),
           Error (''Error while renaming file -> '' @ f @ '':'') (Some e)]\<rparr>"
  | (renamed)
      "rename_refusal (w\<lparr>drawn := Suc (drawn w)\<rparr>) (resolve (path_join [d, f]))
         (resolve (path_join [d, uuid_v4 (random w (drawn w)) @ path_extname f])) = None"
      "fst (turn d t f n w) = Suc n"
      "snd (turn d t f n w) = w\<lparr>drawn := Suc (drawn w),
         nodes := move (resolve (path_join [d, f]))
           (resolve (path_join [d, uuid_v4 (random w (drawn w)) @ path_extname f])) (nodes w),
         trace := trace w @ [Rename (path_join [d, f])
             (path_join [d, uuid_v4 (random w (drawn w)) @ path_extname f]) None,
           Log (''Processing '' @ f @ '' ('' @ dec (Suc n) @ ''/'' @ dec t @ '')'')]\<rparr>"
proof (cases rule: fs_rename_cases [of "w\<lparr>drawn := Suc (drawn w)\<rparr>" "path_join [d, f]"
      "path_join [d, uuid_v4 (random w (drawn w)) @ path_extname f]"])
  case (refused e)
  show ?thesis
    by (rule failed [of e])
      (simp_all add: refused turn_def emit_def console_error_def)
next
  case moved
  show ?thesis
    by (rule renamed)
      (simp_all add: moved turn_def emit_def console_log_def)
qed


lemma turn_frame:
  "random (snd (turn d t f n w)) = random w"
  "drawn (snd (turn d t f n w)) = Suc (drawn w)"
  "module_dir (snd (turn d t f n w)) = module_dir w"
  "readdir_fault (snd (turn d t f n w)) = readdir_fault w"
  "rename_fault (snd (turn d t f n w)) = rename_fault w"
  "write_fault (snd (turn d t f n w)) = write_fault w"
  by (cases rule: turn_cases [of w d f t n]; simp)+


lemma rename_each_run:
  "\<exists>es. trace (snd (rename_each d t fs n w)) = trace w @ es
     \<and> run_ok d (filter (\<lambda>f. \<not> isUUID (path_parse_name f)) fs) (random w) (drawn w) n
          (fst (rename_each d t fs n w)) es"
proof (induction fs arbitrary: n w)
  case Nil
  show ?case by (simp add: run_ok_def)
next
  case (Cons f fs)
  show ?case
  proof (cases "isUUID (path_parse_name f)")
    case True
    then show ?thesis using Cons [of n w] by (simp add: rename_each_skip)
  next
    case False
    let ?w1 = "snd (turn d t f n w)" and ?n1 = "fst (turn d t f n w)"
    let ?todo = "filter (\<lambda>f. \<not> isUUID (path_parse_name f)) fs"
    from Cons [of ?n1 ?w1] obtain es where
      es: "trace (snd (rename_each d t fs ?n1 ?w1)) = trace ?w1 @ es"
      and ok: "run_ok d ?todo (random w) (Suc (drawn w)) ?n1 (fst (rename_each d t fs ?n1 ?w1)) es"
      by (auto simp: turn_frame)
    show ?thesis
    proof (cases rule: turn_cases [of w d f t n])
      case (failed e)
      show ?thesis
        apply (rule exI [of _ "[Rename (path_join [d, f])
             (path_join [d, uuid_v4 (random w (drawn w)) @ path_extname f]) (Some e),
           Error (''Error while renaming file -> '' @ f @ '':'') (Some e)] @ es"])
        using es ok False failed
        by (simp add: rename_each_turn [OF False] run_ok_def)
    next
      case renamed
      show ?thesis
        apply (rule exI [of _ "[Rename (path_join [d, f])
             (path_join [d, uuid_v4 (random w (drawn w)) @ path_extname f]) None,
           Log (''Processing '' @ f @ '' ('' @ dec (Suc n) @ ''/'' @ dec t @ '')'')] @ es"])
        using es ok False renamed
        by (simp add: rename_each_turn [OF False] run_ok_def)
    qed
  qed
qed

section \<open>Renaming inside a directory\<close>

lemma child_iff: "child kd k \<longleftrightarrow> (\<exists>x. k = kd @ [x])"
  unfolding child_def by (metis append_butlast_last_id butlast_snoc snoc_eq_iff_butlast)

lemma entries_alt: "entries ns kd = map (\<lambda>kv. last (fst kv)) (filter (\<lambda>kv. child kd (fst kv)) ns)"
  by (simp add: entries_def child_def)

lemma below_child: "child kd k \<Longrightarrow> below (kd @ [x]) k \<longleftrightarrow> last k = x"
  by (auto simp: child_iff below_def)

lemma child_rekey:
  "below (kd @ [a]) k \<Longrightarrow> child kd ((kd @ [b]) @ drop (length (kd @ [a])) k) \<longleftrightarrow> child kd k"
proof -
  assume "below (kd @ [a]) k"
  then obtain rest where k: "k = kd @ a # rest"
    unfolding below_def by (metis append.assoc append_Cons append_Nil append_take_drop_id)
  show ?thesis unfolding k by (auto simp: child_iff)
qed

lemma entries_move:
  assumes "a \<noteq> b"
  shows "entries (move (kd @ [a]) (kd @ [b]) ns) kd
     = map (\<lambda>x. if x = a then b else x) (filter (\<lambda>x. x \<noteq> b) (entries ns kd))"
proof -
  have ne: "kd @ [a] \<noteq> kd @ [b]" using assms by simp
  show ?thesis
  proof (induction ns)
    case Nil
    show ?case by (simp add: entries_def move_def)
  next
    case (Cons kv ns)
    obtain k v where kv: "kv = (k, v)" by (cases kv)
    have IH: "entries (map (\<lambda>kv. (if below (kd @ [a]) (fst kv) then (kd @ [b]) @ drop (length (kd @ [a])) (fst kv) else fst kv, snd kv))
             (filter (\<lambda>kv. \<not> below (kd @ [b]) (fst kv)) ns)) kd
        = map (\<lambda>x. if x = a then b else x) (filter (\<lambda>x. x \<noteq> b) (entries ns kd))"
      using Cons ne by (simp add: move_def)
    show ?case
    proof (cases "child kd k")
      case True
      then obtain x where x: "k = kd @ [x]" by (auto simp: child_iff)
      show ?thesis
        using IH ne unfolding move_def kv x
        by (simp add: entries_alt below_def child_iff)
    next
      case False
      have "\<not> child kd ((kd @ [b]) @ drop (length (kd @ [a])) k)" if "below (kd @ [a]) k"
        using child_rekey [OF that] False by simp
      then show ?thesis
        using IH ne False unfolding move_def kv
        by (simp add: entries_alt)
    qed
  qed
qed

lemma entries_move_upper:
  assumes "x \<in> set (entries (move (kd @ [a]) (kd @ [b]) ns) kd)"
  shows "x = b \<or> (x \<in> set (entries ns kd) \<and> x \<noteq> a)"
proof (cases "a = b")
  case True
  with assms show ?thesis by (auto simp: move_def)
next
  case False
  from assms show ?thesis unfolding entries_move [OF False] by (auto split: if_splits)
qed

lemma entries_move_keeps:
  assumes "x \<in> set (entries ns kd)" "x \<noteq> a" "a \<in> set (entries ns kd)"
  shows "x \<in> set (entries (move (kd @ [a]) (kd @ [b]) ns) kd)"
proof (cases "a = b")
  case True
  with assms show ?thesis by (simp add: move_def)
next
  case False
  show ?thesis
  proof (cases "x = b")
    case True
    from assms(3) False have "b \<in> (\<lambda>x. if x = a then b else x) ` set (filter (\<lambda>x. x \<noteq> b) (entries ns kd))"
      by (auto simp: image_iff)
    with True show ?thesis unfolding entries_move [OF False] by simp
  next
    case F: False
    with assms have "x \<in> (\<lambda>x. if x = a then b else x) ` set (filter (\<lambda>x. x \<noteq> b) (entries ns kd))"
      by (auto simp: image_iff)
    then show ?thesis unfolding entries_move [OF False] by simp
  qed
qed

lemma entries_present: "map_of ns (kd @ [x]) \<noteq> None \<Longrightarrow> x \<in> set (entries ns kd)"
proof -
  assume "map_of ns (kd @ [x]) \<noteq> None"
  then obtain v where "(kd @ [x], v) \<in> set ns" by (auto dest: map_of_SomeD)
  then have "last (fst (kd @ [x], v)) \<in> set (entries ns kd)"
    unfolding entries_alt by (auto simp: child_iff intro!: image_eqI)
  then show ?thesis by simp
qed



lemma entry_name_generated: "entry_name (uuid_v4 r @ path_extname f)"
proof -
  have u: "isUUID (uuid_v4 r)" by (rule isUUID_uuid_v4)
  have len: "length (uuid_v4 r) = 36" using u by (rule isUUID_length)
  have long: "length (uuid_v4 r @ path_extname f) \<ge> 36" using len by simp
  have "length s \<ge> 36 \<Longrightarrow> s \<noteq> [] \<and> s \<noteq> ''.'' \<and> s \<noteq> ''..''" for s :: string
    by auto
  from this [OF long]
  have "uuid_v4 r @ path_extname f \<noteq> []" "uuid_v4 r @ path_extname f \<noteq> ''.''"
    "uuid_v4 r @ path_extname f \<noteq> ''..''"
    by blast+
  moreover have "CHR ''/'' \<notin> set (uuid_v4 r @ path_extname f)"
    using isUUID_no_slash [OF u] path_extname_no_slash [of f] by simp
  ultimately show ?thesis by (simp add: entry_name_def)
qed

lemma rename_refusal_source:
  "rename_refusal w ko kn = None \<Longrightarrow> ko \<noteq> [] \<and> map_of (nodes w) ko \<noteq> None"
  by (auto simp: rename_refusal_def lookup_def split: if_splits)

lemma turn_nodes:
  assumes "entry_name f"
  obtains (failed) e where
      "(path_join [d, f], path_join [d, uuid_v4 (random w (drawn w)) @ path_extname f], Some e)
         \<in> set (renames (new_events w (snd (turn d t f n w))))"
      "nodes (snd (turn d t f n w)) = nodes w"
  | (renamed)
      "f \<in> set (listing w d)"
      "nodes (snd (turn d t f n w))
         = move (resolve d @ [f]) (resolve d @ [uuid_v4 (random w (drawn w)) @ path_extname f]) (nodes w)"
proof (cases rule: turn_cases [of w d f t n])
  case (failed e)
  show ?thesis
    by (rule that(1) [of e]) (simp_all add: failed new_events_def)
next
  case renamed
  have src: "resolve (path_join [d, f]) = resolve d @ [f]"
    using assms by (rule resolve_entry)
  have tgt: "resolve (path_join [d, uuid_v4 (random w (drawn w)) @ path_extname f])
      = resolve d @ [uuid_v4 (random w (drawn w)) @ path_extname f]"
    using entry_name_generated by (rule resolve_entry)
  from renamed(1) have "map_of (nodes w) (resolve d @ [f]) \<noteq> None"
    unfolding src using rename_refusal_source [of "w\<lparr>drawn := Suc (drawn w)\<rparr>"] by simp
  then have "f \<in> set (listing w d)"
    unfolding listing_def by (rule entries_present)
  then show ?thesis
    by (rule that(2)) (simp add: renamed src tgt)
qed

lemma turn_trace: "\<exists>es. trace (snd (turn d t f n w)) = trace w @ es"
  by (cases rule: turn_cases [of w d f t n]) simp_all

lemma rename_each_trace: "\<exists>es. trace (snd (rename_each d t fs n w)) = trace w @ es"
  using rename_each_run [of d t fs n w] by blast

lemma new_events_trans:
  assumes "\<exists>es. trace w1 = trace w @ es" "\<exists>es. trace w2 = trace w1 @ es"
  shows "new_events w w2 = new_events w w1 @ new_events w1 w2"
  using assms by (auto simp: new_events_def)

lemma new_events_turn:
  "new_events w (snd (rename_each d t fs (fst (turn d t f n w)) (snd (turn d t f n w))))
     = new_events w (snd (turn d t f n w))
       @ new_events (snd (turn d t f n w)) (snd (rename_each d t fs (fst (turn d t f n w)) (snd (turn d t f n w))))"
  by (rule new_events_trans [OF turn_trace rename_each_trace])

lemma rename_each_upper:
  assumes "\<forall>f\<in>set fs. entry_name f"
    and "\<forall>x\<in>set (renames (new_events w (snd (rename_each d t fs n w)))). snd (snd x) = None"
    and "\<forall>x\<in>set (listing w d). x \<in> set fs \<or> Q x"
    and "\<forall>f\<in>set fs. if isUUID (path_parse_name f) then Q f else (\<forall>r. Q (uuid_v4 r @ path_extname f))"
  shows "\<forall>x\<in>set (listing (snd (rename_each d t fs n w)) d). Q x"
  using assms
proof (induction fs arbitrary: n w)
  case Nil
  then show ?case by simp
next
  case (Cons f fs)
  note IH = Cons.IH and prems = Cons.prems
  have rest_names: "\<forall>f\<in>set fs. entry_name f" and f_name: "entry_name f" using prems(1) by simp_all
  have rest_Q: "\<forall>f\<in>set fs. if isUUID (path_parse_name f) then Q f else (\<forall>r. Q (uuid_v4 r @ path_extname f))"
    using prems(4) by simp
  show ?case
  proof (cases "isUUID (path_parse_name f)")
    case True
    then have Qf: "Q f" using prems(4) by simp
    have "\<forall>x\<in>set (listing w d). x \<in> set fs \<or> Q x" using prems(3) Qf by auto
    from IH [OF rest_names _ this rest_Q, of n] prems(2) True
    show ?thesis by (simp add: rename_each_skip)
  next
    case False
    let ?w1 = "snd (turn d t f n w)" and ?n1 = "fst (turn d t f n w)"
    have step: "rename_each d t (f # fs) n w = rename_each d t fs ?n1 ?w1"
      by (rule rename_each_turn [OF False])
    have ev: "renames (new_events w (snd (rename_each d t fs ?n1 ?w1)))
        = renames (new_events w ?w1) @ renames (new_events ?w1 (snd (rename_each d t fs ?n1 ?w1)))"
      by (simp only: new_events_turn renames_append)
    have nofail: "\<forall>x\<in>set (renames (new_events w ?w1)). snd (snd x) = None"
      and nofail_rest: "\<forall>x\<in>set (renames (new_events ?w1 (snd (rename_each d t fs ?n1 ?w1)))). snd (snd x) = None"
      using prems(2) unfolding step ev by auto
    have Qnew: "Q (uuid_v4 (random w (drawn w)) @ path_extname f)"
      using prems(4) False by simp
    have inv: "\<forall>x\<in>set (listing ?w1 d). x \<in> set fs \<or> Q x"
      using f_name
    proof (cases rule: turn_nodes [where d = d and w = w and t = t and n = n])
      case (failed e)
      with nofail show ?thesis by force
    next
      case renamed
      show ?thesis
      proof
        fix x assume "x \<in> set (listing ?w1 d)"
        then have "x = uuid_v4 (random w (drawn w)) @ path_extname f \<or> (x \<in> set (listing w d) \<and> x \<noteq> f)"
          unfolding listing_def renamed(2) by (rule entries_move_upper)
        with Qnew prems(3) show "x \<in> set fs \<or> Q x" by auto
      qed
    qed
    from IH [OF rest_names nofail_rest inv rest_Q]
    show ?thesis unfolding step .
  qed
qed

lemma rename_each_keeps:
  assumes "\<forall>f\<in>set fs. entry_name f" "x \<in> set (listing w d)" "isUUID (path_parse_name x)"
  shows "x \<in> set (listing (snd (rename_each d t fs n w)) d)"
  using assms
proof (induction fs arbitrary: n w)
  case Nil
  then show ?case by simp
next
  case (Cons f fs)
  note IH = Cons.IH and prems = Cons.prems
  have rest_names: "\<forall>f\<in>set fs. entry_name f" and f_name: "entry_name f" using prems(1) by simp_all
  show ?case
  proof (cases "isUUID (path_parse_name f)")
    case True
    from IH [OF rest_names prems(2,3), of n] True show ?thesis by (simp add: rename_each_skip)
  next
    case False
    let ?w1 = "snd (turn d t f n w)" and ?n1 = "fst (turn d t f n w)"
    have step: "rename_each d t (f # fs) n w = rename_each d t fs ?n1 ?w1"
      by (rule rename_each_turn [OF False])
    have neq: "x \<noteq> f" using False prems(3) by auto
    have "x \<in> set (listing ?w1 d)"
      using f_name
    proof (cases rule: turn_nodes [where d = d and w = w and t = t and n = n])
      case (failed e)
      with prems(2) show ?thesis by (simp add: listing_def)
    next
      case renamed
      show ?thesis
        unfolding listing_def renamed(2)
        using prems(2) neq renamed(1) unfolding listing_def
        by (rule entries_move_keeps)
    qed
    from IH [OF rest_names this prems(3)] show ?thesis unfolding step .
  qed
qed


section \<open>The whole run\<close>

lemma renameProcess_try_missing:
  assumes "\<not> directory_at w d"
  shows "renameProcess_try d w
    = (Inr None, w\<lparr>trace := trace w @ [Stat d, Error (''Directory does not exist: '' @ d) None]\<rparr>)"
  using assms
  by (subst renameProcess_try_def, subst fs_stat_directory(1))
    (simp add: fs_stat_directory(2) emit_def console_error_def Let_def)

lemma renameProcess_try_unreadable:
  assumes "directory_at w d" "readdir_fault w (resolve d) = Some e"
  shows "renameProcess_try d w
    = (Inl e, w\<lparr>trace := trace w @ [Stat d, Readdir d,
         Error (''Error while reading files from -> '' @ d @ '':'') (Some e)]\<rparr>)"
  using assms directory_at_resolve [OF assms(1)]
  by (subst renameProcess_try_def, subst fs_stat_directory(1))
    (simp add: fs_stat_directory(2) getFiles_def fs_readdir_def emit_def
      console_error_def Let_def)

lemma renameProcess_try_run:
  assumes "directory_at w d" "readdir_fault w (resolve d) = None"
  shows "renameProcess_try d w
    = (Inr (Some (fst (rename_each d (length (listing w d)) (listing w d) 0
          (w\<lparr>trace := trace w @ [Stat d, Readdir d, Log ''Started renaming process.'']\<rparr>)))),
       console_log ''Renaming process completed.''
         (snd (rename_each d (length (listing w d)) (listing w d) 0
          (w\<lparr>trace := trace w @ [Stat d, Readdir d, Log ''Started renaming process.'']\<rparr>))))"
  using assms directory_at_resolve [OF assms(1)]
  by (subst renameProcess_try_def, subst fs_stat_directory(1))
    (simp add: fs_stat_directory(2) getFiles_def fs_readdir_def emit_def
      console_log_def Let_def listing_def split: prod.splits)

lemma renameProcess_unfold:
  "renameProcess name w =
     (case renameProcess_try (directory_path w name) w of
        (Inl error, w') \<Rightarrow> (Inr None, console_error ''Error in renameProcess:'' (Some error) w')
      | (Inr r, w') \<Rightarrow> (Inr r, w'))"
  by (simp add: renameProcess_def directory_path_def Let_def)

lemma renameProcess_resolves: "\<exists>r. fst (renameProcess name w) = Inr r"
  unfolding renameProcess_unfold by (auto split: prod.splits sum.splits)

lemma renameProcess_run:
  assumes "lookup (nodes w) (resolve (directory_path w name)) = Some Dir"
    and "readdir_fault w (resolve (directory_path w name)) = None"
  obtains es where
    "trace (snd (renameProcess name w))
       = trace w @ [Stat (directory_path w name), Readdir (directory_path w name),
           Log ''Started renaming process.''] @ es @ [Log ''Renaming process completed.'']"
    "run_ok (directory_path w name)
       (filter (\<lambda>f. \<not> isUUID (path_parse_name f)) (listing w (directory_path w name)))
       (random w) (drawn w) 0 (fst (rename_each (directory_path w name)
          (length (listing w (directory_path w name))) (listing w (directory_path w name)) 0
          (w\<lparr>trace := trace w @ [Stat (directory_path w name), Readdir (directory_path w name),
             Log ''Started renaming process.'']\<rparr>))) es"
    "renameProcess name w
       = (Inr (Some (fst (rename_each (directory_path w name)
          (length (listing w (directory_path w name))) (listing w (directory_path w name)) 0
          (w\<lparr>trace := trace w @ [Stat (directory_path w name), Readdir (directory_path w name),
             Log ''Started renaming process.'']\<rparr>)))),
          console_log ''Renaming process completed.''
            (snd (rename_each (directory_path w name)
          (length (listing w (directory_path w name))) (listing w (directory_path w name)) 0
          (w\<lparr>trace := trace w @ [Stat (directory_path w name), Readdir (directory_path w name),
             Log ''Started renaming process.'']\<rparr>))))"
proof -
  let ?d = "directory_path w name"
  let ?w0 = "w\<lparr>trace := trace w @ [Stat ?d, Readdir ?d, Log ''Started renaming process.'']\<rparr>"
  let ?R = "rename_each ?d (length (listing w ?d)) (listing w ?d) 0 ?w0"
  have eq: "renameProcess name w = (Inr (Some (fst ?R)), console_log ''Renaming process completed.'' (snd ?R))"
    unfolding renameProcess_unfold renameProcess_try_run [OF directory_at_path [OF assms(1)] assms(2)]
    by simp
  from rename_each_run [of ?d "length (listing w ?d)" "listing w ?d" 0 ?w0]
  obtain es where es: "trace (snd ?R) = trace ?w0 @ es"
    and ok: "run_ok ?d (filter (\<lambda>f. \<not> isUUID (path_parse_name f)) (listing w ?d))
       (random w) (drawn w) 0 (fst ?R) es"
    by auto
  have "trace (snd (renameProcess name w))
       = trace w @ [Stat ?d, Readdir ?d, Log ''Started renaming process.''] @ es
          @ [Log ''Renaming process completed.'']"
    unfolding eq using es by (simp add: console_log_def emit_def)
  then show ?thesis using ok eq by (rule that)
qed

section \<open>Evaluated examples\<close>

lemma dp_d: "path_join [''/s'', ''../'', ''d''] = ''/d''" by code_simp

lemma dp_nowhere: "path_join [''/s'', ''../'', ''nowhere''] = ''/nowhere''" by code_simp

lemma res_d: "resolve ''/d'' = [''d'']" by code_simp

lemma res_nowhere: "resolve ''/nowhere'' = [''nowhere'']" by code_simp

lemma uuid_0: "uuid_v4 0 = ''00000000-0000-4000-8000-000000000000''" by code_simp

lemma uuid_1: "uuid_v4 (Suc 0) = ''00000000-0000-4000-8000-000000000001''" by code_simp

lemma names_plain:
  "path_parse_name ''a.b'' = ''a''" "path_extname ''a.b'' = ''.b''"
  "path_parse_name ''report'' = ''report''" "path_extname ''report'' = []"
  by code_simp+

lemma not_ids: "\<not> isUUID ''a''" "\<not> isUUID ''report''" by code_simp+

lemma joins:
  "path_join [''/d'', ''a.b''] = ''/d/a.b''"
  "path_join [''/d'', ''report''] = ''/d/report''"
  "path_join [''/d'', ''00000000-0000-4000-8000-000000000000.b''] = ''/d/00000000-0000-4000-8000-000000000000.b''"
  "path_join [''/d'', ''00000000-0000-4000-8000-000000000001''] = ''/d/00000000-0000-4000-8000-000000000001''"
  "path_join [''/d'', ''00000000-0000-4000-8000-000000000000''] = ''/d/00000000-0000-4000-8000-000000000000''"
  by code_simp+

lemma resolves:
  "resolve ''/d/a.b'' = [''d'', ''a.b'']"
  "resolve ''/d/report'' = [''d'', ''report'']"
  "resolve ''/d/00000000-0000-4000-8000-000000000000.b'' = [''d'', ''00000000-0000-4000-8000-000000000000.b'']"
  "resolve ''/d/00000000-0000-4000-8000-000000000001'' = [''d'', ''00000000-0000-4000-8000-000000000001'']"
  "resolve ''/d/00000000-0000-4000-8000-000000000000'' = [''d'', ''00000000-0000-4000-8000-000000000000'']"
  by code_simp+

lemma decs: "dec (Suc 0) = ''1''" "dec (Suc (Suc 0)) = ''2''" by code_simp+

lemmas eval_world = renameProcess_def renameProcess_try_def fs_stat_def locate_def getFiles_def fs_readdir_def
  lookup_def entries_def emit_def console_log_def console_error_def getNewFilename_def uuid_def
  fs_rename_def rename_refusal_def below_def move_def Let_def rename_each.simps new_events_def

lemma locked_run:
  "renameProcess ''d'' locked_world =
     (Inr (Some 1),
      locked_world\<lparr>nodes := [([''s''], Dir), ([''d''], Dir), ([''d'', ''a.b''], File ''x''),
           ([''d'', ''00000000-0000-4000-8000-000000000001''], File ''y'')],
        drawn := 2,
        trace := [Stat ''/d'', Readdir ''/d'', Log ''Started renaming process.'',
          Rename ''/d/a.b'' ''/d/00000000-0000-4000-8000-000000000000.b'' (Some EPERM),
          Error ''Error while renaming file -> a.b:'' (Some EPERM),
          Rename ''/d/report'' ''/d/00000000-0000-4000-8000-000000000001'' None,
          Log ''Processing report (1/2)'',
          Log ''Renaming process completed.'']\<rparr>)"
  by (simp add: locked_world_def plain_world_def eval_world dp_d res_d uuid_0 uuid_1 names_plain
      not_ids joins resolves decs)




lemma exists_d:
  "lookup (nodes plain_world) (resolve (directory_path plain_world ''d'')) = Some Dir"
  "lookup (nodes locked_world) (resolve (directory_path locked_world ''d'')) = Some Dir"
  "lookup (nodes unreadable_world) (resolve (directory_path unreadable_world ''d'')) = Some Dir"
  "lookup (nodes mixed_world) (resolve (directory_path mixed_world ''d'')) = Some Dir"
  by (simp_all add: directory_path_def plain_world_def locked_world_def unreadable_world_def
      mixed_world_def dp_d res_d lookup_def)

lemma readable_d:
  "readdir_fault plain_world (resolve (directory_path plain_world ''d'')) = None"
  "readdir_fault locked_world (resolve (directory_path locked_world ''d'')) = None"
  "readdir_fault mixed_world (resolve (directory_path mixed_world ''d'')) = None"
  by (simp_all add: directory_path_def plain_world_def locked_world_def mixed_world_def dp_d res_d)

section \<open>Claims about failures\<close>

text \<open>
  Claim C4. When the path \<open>renameProcess\<close> works on does not lead to an existing directory
  (nothing there, or a file), the run emits the stat call and one error line naming the path,
  and nothing else: no listing, no rename, the file system as it was, and the promise resolves.
\<close>

theorem renameProcess_missing_directory:
  assumes "lookup (nodes w) (resolve (directory_path w directoryName)) \<noteq> Some Dir"
  shows "renameProcess directoryName w
    = (Inr None,
       w\<lparr>trace := trace w @ [Stat (directory_path w directoryName),
          Error (''Directory does not exist: '' @ directory_path w directoryName) None]\<rparr>)"
proof -
  have "\<not> directory_at w (directory_path w directoryName)"
    using assms directory_at_resolve by blast
  then show ?thesis
    unfolding renameProcess_unfold by (simp add: renameProcess_try_missing)
qed

theorem renameProcess_missing_directory_witness:
  "lookup (nodes plain_world) (resolve (directory_path plain_world ''nowhere'')) \<noteq> Some Dir
   \<and> renameProcess ''nowhere'' plain_world
     = (Inr None, plain_world\<lparr>trace := [Stat ''/nowhere'',
          Error ''Directory does not exist: /nowhere'' None]\<rparr>)"
proof -
  have dp: "directory_path plain_world ''nowhere'' = ''/nowhere''"
    by (simp add: directory_path_def plain_world_def dp_nowhere)
  have h: "lookup (nodes plain_world) (resolve (directory_path plain_world ''nowhere'')) \<noteq> Some Dir"
    unfolding dp res_nowhere by (simp add: lookup_def plain_world_def)
  have "trace plain_world = []" by (simp add: plain_world_def)
  with renameProcess_missing_directory [OF h] h show ?thesis by (simp add: dp)
qed

text \<open>
  Claim C5, as stated, fails: in a world where \<open>/d\<close> exists and the system refuses to list
  it, the listing fails with \<open>EACCES\<close> and yet \<open>renameProcess\<close> resolves; the error does not
  reach its caller.
\<close>

theorem listing_failure_not_raised:
  "fst (fs_readdir ''/d'' unreadable_world) = Inl EACCES
   \<and> fst (renameProcess ''d'' unreadable_world) = Inr None"
  by (simp add: unreadable_world_def plain_world_def eval_world dp_d res_d)

text \<open>
  Claim C5, amended. When listing the directory fails, \<open>getFiles\<close> reports the failure and
  raises it again to \<open>renameProcess\<close>, whose outer handler reports it a second time and
  returns: the trace holds the stat call, the listing call and the two error lines, no rename
  is attempted, the file system is as it was, and the promise resolves. No run of
  \<open>renameProcess\<close> at all ends in a rejection.
\<close>

theorem renameProcess_listing_failure:
  assumes "lookup (nodes w) (resolve (directory_path w directoryName)) = Some Dir"
    and "readdir_fault w (resolve (directory_path w directoryName)) = Some e"
  shows "fst (getFiles (directory_path w directoryName)
               (snd (fs_stat (directory_path w directoryName) w))) = Inl e
    \<and> renameProcess directoryName w
      = (Inr None,
         w\<lparr>trace := trace w @ [Stat (directory_path w directoryName),
            Readdir (directory_path w directoryName),
            Error (''Error while reading files from -> '' @ directory_path w directoryName @ '':'')
              (Some e),
            Error ''Error in renameProcess:'' (Some e)]\<rparr>)
    \<and> (\<exists>r. fst (renameProcess name' w') = Inr r)"
proof (intro conjI)
  show "fst (getFiles (directory_path w directoryName)
               (snd (fs_stat (directory_path w directoryName) w))) = Inl e"
    using assms by (simp add: getFiles_def fs_readdir_def fs_stat_def emit_def Let_def)
  show "renameProcess directoryName w
      = (Inr None,
         w\<lparr>trace := trace w @ [Stat (directory_path w directoryName),
            Readdir (directory_path w directoryName),
            Error (''Error while reading files from -> '' @ directory_path w directoryName @ '':'')
              (Some e),
            Error ''Error in renameProcess:'' (Some e)]\<rparr>)"
    unfolding renameProcess_unfold
      renameProcess_try_unreadable [OF directory_at_path [OF assms(1)] assms(2)]
    by (simp add: console_error_def emit_def)
  show "\<exists>r. fst (renameProcess name' w') = Inr r" by (rule renameProcess_resolves)
qed

theorem renameProcess_listing_failure_witness:
  "lookup (nodes unreadable_world) (resolve (directory_path unreadable_world ''d'')) = Some Dir
   \<and> readdir_fault unreadable_world (resolve (directory_path unreadable_world ''d'')) = Some EACCES
   \<and> renameProcess ''d'' unreadable_world
      = (Inr None,
         unreadable_world\<lparr>trace := [Stat ''/d'', Readdir ''/d'',
            Error ''Error while reading files from -> /d:'' (Some EACCES),
            Error ''Error in renameProcess:'' (Some EACCES)]\<rparr>)"
proof -
  have dp: "directory_path unreadable_world ''d'' = ''/d''"
    by (simp add: directory_path_def unreadable_world_def plain_world_def dp_d)
  have h2: "readdir_fault unreadable_world (resolve (directory_path unreadable_world ''d'')) = Some EACCES"
    unfolding dp res_d by (simp add: unreadable_world_def)
  have "trace unreadable_world = []" by (simp add: unreadable_world_def plain_world_def)
  with renameProcess_listing_failure [OF exists_d(3) h2] exists_d(3) h2
  show ?thesis by (simp add: dp)
qed

text \<open>
  Claim C6. When the directory exists and can be listed, the rename calls of the run are, in
  listing order, exactly one for each entry of the snapshot whose base name is not an
  identifier, whatever the outcome of the calls before it; the counter ends at the number of
  calls that succeeded; each failed call is reported by one error line naming the entry; and
  the run ends with the completion line.
\<close>

theorem renameProcess_attempts:
  assumes "lookup (nodes w) (resolve (directory_path w directoryName)) = Some Dir"
    and "readdir_fault w (resolve (directory_path w directoryName)) = None"
  shows "map fst (renames (new_events w (snd (renameProcess directoryName w))))
      = map (\<lambda>f. path_join [directory_path w directoryName, f])
          (filter (\<lambda>f. \<not> isUUID (path_parse_name f)) (listing w (directory_path w directoryName)))
    \<and> fst (renameProcess directoryName w)
      = Inr (Some (length (filter (\<lambda>x. snd (snd x) = None)
          (renames (new_events w (snd (renameProcess directoryName w)))))))
    \<and> errors (new_events w (snd (renameProcess directoryName w)))
      = map (\<lambda>fx. (''Error while renaming file -> '' @ fst fx @ '':'', snd (snd (snd fx))))
          (filter (\<lambda>fx. snd (snd (snd fx)) \<noteq> None)
            (zip (filter (\<lambda>f. \<not> isUUID (path_parse_name f))
                    (listing w (directory_path w directoryName)))
                 (renames (new_events w (snd (renameProcess directoryName w))))))
    \<and> last (trace (snd (renameProcess directoryName w))) = Log ''Renaming process completed.''"
proof -
  from assms obtain es where
    tr: "trace (snd (renameProcess directoryName w))
       = trace w @ [Stat (directory_path w directoryName), Readdir (directory_path w directoryName),
           Log ''Started renaming process.''] @ es @ [Log ''Renaming process completed.'']"
    and ok: "run_ok (directory_path w directoryName)
       (filter (\<lambda>f. \<not> isUUID (path_parse_name f)) (listing w (directory_path w directoryName)))
       (random w) (drawn w) 0 (fst (rename_each (directory_path w directoryName)
          (length (listing w (directory_path w directoryName))) (listing w (directory_path w directoryName)) 0
          (w\<lparr>trace := trace w @ [Stat (directory_path w directoryName), Readdir (directory_path w directoryName),
             Log ''Started renaming process.'']\<rparr>))) es"
    and eq: "renameProcess directoryName w
       = (Inr (Some (fst (rename_each (directory_path w directoryName)
          (length (listing w (directory_path w directoryName))) (listing w (directory_path w directoryName)) 0
          (w\<lparr>trace := trace w @ [Stat (directory_path w directoryName), Readdir (directory_path w directoryName),
             Log ''Started renaming process.'']\<rparr>)))),
          console_log ''Renaming process completed.''
            (snd (rename_each (directory_path w directoryName)
          (length (listing w (directory_path w directoryName))) (listing w (directory_path w directoryName)) 0
          (w\<lparr>trace := trace w @ [Stat (directory_path w directoryName), Readdir (directory_path w directoryName),
             Log ''Started renaming process.'']\<rparr>))))"
    by (rule renameProcess_run)
  have ne: "new_events w (snd (renameProcess directoryName w))
      = [Stat (directory_path w directoryName), Readdir (directory_path w directoryName),
           Log ''Started renaming process.''] @ es @ [Log ''Renaming process completed.'']"
    using tr by (rule new_events_append)
  have rn: "renames (new_events w (snd (renameProcess directoryName w))) = renames es"
    and er: "errors (new_events w (snd (renameProcess directoryName w))) = errors es"
    unfolding ne by (simp_all add: renames_append errors_append)
  have fst_eq: "fst (renameProcess directoryName w) = Inr (Some (fst (rename_each (directory_path w directoryName)
          (length (listing w (directory_path w directoryName))) (listing w (directory_path w directoryName)) 0
          (w\<lparr>trace := trace w @ [Stat (directory_path w directoryName), Readdir (directory_path w directoryName),
             Log ''Started renaming process.'']\<rparr>))))"
    unfolding eq by simp
  show ?thesis
    unfolding rn er fst_eq using ok tr by (simp add: run_ok_def)
qed

theorem renameProcess_attempts_witness:
  "lookup (nodes locked_world) (resolve (directory_path locked_world ''d'')) = Some Dir
   \<and> readdir_fault locked_world (resolve (directory_path locked_world ''d'')) = None
   \<and> map fst (renames (new_events locked_world (snd (renameProcess ''d'' locked_world))))
      = [''/d/a.b'', ''/d/report'']
   \<and> fst (renameProcess ''d'' locked_world) = Inr (Some 1)
   \<and> errors (new_events locked_world (snd (renameProcess ''d'' locked_world)))
      = [(''Error while renaming file -> a.b:'', Some EPERM)]
   \<and> last (trace (snd (renameProcess ''d'' locked_world))) = Log ''Renaming process completed.''"
proof -
  have dp: "directory_path locked_world ''d'' = ''/d''"
    by (simp add: directory_path_def locked_world_def plain_world_def dp_d)
  have ls: "listing locked_world ''/d'' = [''a.b'', ''report'']"
    by (simp add: listing_def res_d entries_def locked_world_def plain_world_def)
  have rn: "renames (new_events locked_world (snd (renameProcess ''d'' locked_world)))
      = [(''/d/a.b'', ''/d/00000000-0000-4000-8000-000000000000.b'', Some EPERM),
         (''/d/report'', ''/d/00000000-0000-4000-8000-000000000001'', None)]"
    unfolding locked_run by (simp add: new_events_def locked_world_def plain_world_def)
  from renameProcess_attempts [OF exists_d(2) readable_d(2)] exists_d(2) readable_d(2)
  show ?thesis
    by (simp add: dp ls rn names_plain not_ids joins)
qed

section \<open>The state after a run\<close>

lemma isUUID_canonical: "isUUID s = canonical_identifier s"
  by (simp add: isUUID_positions canonical_positions hex_iff)

lemma fresh_names_length: "length (fresh_names rnd k fs) = length fs"
  by (induction fs arbitrary: k) simp_all

lemma fresh_names_parse: "x \<in> set (fresh_names rnd k fs) \<Longrightarrow> isUUID (path_parse_name x)"
  by (induction fs arbitrary: k) (auto simp: parse_generated isUUID_uuid_v4)


lemma rename_each_exact:
  assumes "\<forall>f\<in>set fs. entry_name f \<and> \<not> isUUID (path_parse_name f)"
    and "\<forall>x\<in>set (renames (new_events w (snd (rename_each d t fs n w)))). snd (snd x) = None"
    and "listing w d = pre @ fs"
    and "distinct (pre @ fs)"
    and "distinct (fresh_names (random w) (drawn w) fs)"
    and "set (fresh_names (random w) (drawn w) fs) \<inter> set pre = {}"
  shows "listing (snd (rename_each d t fs n w)) d = pre @ fresh_names (random w) (drawn w) fs"
  using assms
proof (induction fs arbitrary: n w pre)
  case Nil
  then show ?case by simp
next
  case (Cons f fs)
  note IH = Cons.IH and prems = Cons.prems
  let ?new = "uuid_v4 (random w (drawn w)) @ path_extname f"
  let ?w1 = "snd (turn d t f n w)" and ?n1 = "fst (turn d t f n w)"
  have f_name: "entry_name f" and f_no: "\<not> isUUID (path_parse_name f)"
    and rest: "\<forall>f\<in>set fs. entry_name f \<and> \<not> isUUID (path_parse_name f)"
    using prems(1) by simp_all
  have step: "rename_each d t (f # fs) n w = rename_each d t fs ?n1 ?w1"
    by (rule rename_each_turn [OF f_no])
  have ev: "renames (new_events w (snd (rename_each d t fs ?n1 ?w1)))
      = renames (new_events w ?w1) @ renames (new_events ?w1 (snd (rename_each d t fs ?n1 ?w1)))"
    by (simp only: new_events_turn renames_append)
  have nofail: "\<forall>x\<in>set (renames (new_events w ?w1)). snd (snd x) = None"
    and nofail_rest: "\<forall>x\<in>set (renames (new_events ?w1 (snd (rename_each d t fs ?n1 ?w1)))). snd (snd x) = None"
    using prems(2) unfolding step ev by auto
  have new_id: "isUUID (path_parse_name ?new)"
    by (simp add: parse_generated isUUID_uuid_v4)
  have new_not_old: "?new \<notin> set (f # fs)"
    using new_id prems(1) by auto
  have new_not_pre: "?new \<notin> set pre"
    using prems(6) by auto
  have f_once: "f \<notin> set pre" "f \<notin> set fs"
    using prems(4) by auto
  have l1: "listing ?w1 d = (pre @ [?new]) @ fs"
    using f_name
  proof (cases rule: turn_nodes [where d = d and w = w and t = t and n = n])
    case (failed e)
    with nofail show ?thesis by force
  next
    case renamed
    have ne: "f \<noteq> ?new" using new_not_old by auto
    have "\<forall>x\<in>set (pre @ f # fs). x \<noteq> ?new"
      using new_not_old new_not_pre by auto
    then have keep: "filter (\<lambda>x. x \<noteq> ?new) (pre @ f # fs) = pre @ f # fs"
      by (simp only: filter_id_conv)
    have "map (\<lambda>x. if x = f then ?new else x) pre = pre"
      using f_once(1) by (induction pre) auto
    moreover have "map (\<lambda>x. if x = f then ?new else x) fs = fs"
      using f_once(2) by (induction fs) auto
    ultimately have "map (\<lambda>x. if x = f then ?new else x) (pre @ f # fs) = pre @ ?new # fs"
      by simp
    with keep show ?thesis
      using prems(3) unfolding listing_def renamed(2) entries_move [OF ne] by simp
  qed
  have d1: "distinct ((pre @ [?new]) @ fs)"
    using prems(4) new_not_old new_not_pre by auto
  have fr: "random ?w1 = random w" "drawn ?w1 = Suc (drawn w)" by (simp_all add: turn_frame)
  have d2: "distinct (fresh_names (random ?w1) (drawn ?w1) fs)"
    and d3: "set (fresh_names (random ?w1) (drawn ?w1) fs) \<inter> set (pre @ [?new]) = {}"
    using prems(5,6) unfolding fr by auto
  from IH [OF rest nofail_rest l1 d1 d2 d3]
  show ?case unfolding step fr by simp
qed

lemma started_frame:
  "nodes (started w d) = nodes w" "random (started w d) = random w" "drawn (started w d) = drawn w"
  "listing (started w d) p = listing w p" "module_dir (started w d) = module_dir w"
  "readdir_fault (started w d) = readdir_fault w"
  by (simp_all add: started_def listing_def)

lemma console_log_frame:
  "nodes (console_log m v) = nodes v" "listing (console_log m v) p = listing v p"
  "module_dir (console_log m v) = module_dir v" "readdir_fault (console_log m v) = readdir_fault v"
  "trace (console_log m v) = trace v @ [Log m]"
  by (simp_all add: console_log_def emit_def listing_def)

lemma renameProcess_loop:
  assumes "lookup (nodes w) (resolve (directory_path w name)) = Some Dir"
    and "readdir_fault w (resolve (directory_path w name)) = None"
  shows "renameProcess name w
    = (Inr (Some (fst (the_loop w (directory_path w name)))),
       console_log ''Renaming process completed.'' (snd (the_loop w (directory_path w name))))"
  unfolding renameProcess_unfold renameProcess_try_run [OF directory_at_path [OF assms(1)] assms(2)]
    the_loop_def started_def
  by simp

lemma the_loop_run:
  "\<exists>es. trace (snd (the_loop w d)) = trace w @ [Stat d, Readdir d, Log ''Started renaming process.''] @ es
     \<and> new_events (started w d) (snd (the_loop w d)) = es
     \<and> run_ok d (filter (\<lambda>f. \<not> isUUID (path_parse_name f)) (listing w d)) (random w) (drawn w) 0
          (fst (the_loop w d)) es"
proof -
  from rename_each_run [of d "length (listing w d)" "listing w d" 0 "started w d"]
  obtain es where es: "trace (snd (the_loop w d)) = trace (started w d) @ es"
    and ok: "run_ok d (filter (\<lambda>f. \<not> isUUID (path_parse_name f)) (listing w d)) (random w) (drawn w) 0
          (fst (the_loop w d)) es"
    unfolding the_loop_def by (auto simp: started_frame)
  have "new_events (started w d) (snd (the_loop w d)) = es"
    using es by (rule new_events_append)
  with es ok show ?thesis by (auto simp: started_def)
qed

lemma renameProcess_events:
  assumes "lookup (nodes w) (resolve (directory_path w name)) = Some Dir"
    and "readdir_fault w (resolve (directory_path w name)) = None"
  shows "renames (new_events w (snd (renameProcess name w)))
    = renames (new_events (started w (directory_path w name)) (snd (the_loop w (directory_path w name))))"
proof -
  let ?d = "directory_path w name"
  from the_loop_run [of w ?d] obtain es where
    es: "trace (snd (the_loop w ?d)) = trace w @ [Stat ?d, Readdir ?d, Log ''Started renaming process.''] @ es"
    and ne: "new_events (started w ?d) (snd (the_loop w ?d)) = es"
    by blast
  have "trace (snd (renameProcess name w))
      = trace w @ ([Stat ?d, Readdir ?d, Log ''Started renaming process.''] @ es
          @ [Log ''Renaming process completed.''])"
    unfolding renameProcess_loop [OF assms] using es by (simp add: console_log_frame)
  then have "new_events w (snd (renameProcess name w))
      = [Stat ?d, Readdir ?d, Log ''Started renaming process.''] @ es @ [Log ''Renaming process completed.'']"
    by (rule new_events_append)
  then show ?thesis unfolding ne by (simp add: renames_append)
qed

lemma renameProcess_listing:
  assumes "lookup (nodes w) (resolve (directory_path w name)) = Some Dir"
    and "readdir_fault w (resolve (directory_path w name)) = None"
  shows "listing (snd (renameProcess name w)) p = listing (snd (the_loop w (directory_path w name))) p"
  unfolding renameProcess_loop [OF assms] by (simp add: console_log_frame)

lemma run_ok_all_done:
  assumes "run_ok d todo rnd k 0 n es" "\<forall>x\<in>set (renames es). snd (snd x) = None"
  shows "n = length todo"
proof -
  have "filter (\<lambda>x. snd (snd x) = None) (renames es) = renames es"
    using assms(2) by (simp only: filter_id_conv)
  moreover have "length (renames es) = length todo"
    using assms(1) unfolding run_ok_def by (metis length_map)
  ultimately show ?thesis using assms(1) unfolding run_ok_def by simp
qed

lemma dps:
  "directory_path plain_world ''d'' = ''/d''"
  "directory_path mixed_world ''d'' = ''/d''"
  "directory_path locked_world ''d'' = ''/d''"
  by (simp_all add: directory_path_def plain_world_def mixed_world_def locked_world_def dp_d)

lemma plain_run:
  "renameProcess ''d'' plain_world =
     (Inr (Some 2),
      plain_world\<lparr>nodes := [([''s''], Dir), ([''d''], Dir),
           ([''d'', ''00000000-0000-4000-8000-000000000000.b''], File ''x''),
           ([''d'', ''00000000-0000-4000-8000-000000000001''], File ''y'')],
        drawn := 2,
        trace := [Stat ''/d'', Readdir ''/d'', Log ''Started renaming process.'',
          Rename ''/d/a.b'' ''/d/00000000-0000-4000-8000-000000000000.b'' None,
          Log ''Processing a.b (1/2)'',
          Rename ''/d/report'' ''/d/00000000-0000-4000-8000-000000000001'' None,
          Log ''Processing report (2/2)'',
          Log ''Renaming process completed.'']\<rparr>)"
  by (simp add: plain_world_def eval_world dp_d res_d uuid_0 uuid_1 names_plain
      not_ids joins resolves decs)

lemma plain_listing: "listing plain_world ''/d'' = [''a.b'', ''report'']"
  by (simp add: listing_def res_d entries_def plain_world_def)

section \<open>Claims about the renamed directory\<close>

text \<open>
  Claim C1. Take a directory that exists and can be listed, whose entries all have a base name
  that is not an identifier, and a run in which no rename call fails. Then the counter ends at
  the number of entries; the rename calls take the entries, in listing order, to the names
  made of a fresh version 4 identifier followed by the entry's own extension
  (\<open>path.extname\<close>); every name in the directory after the run is an identifier of the
  8-4-4-4-12 shape followed by the extension of an original entry; and when the names of the
  directory and the generated names are distinct, the directory after the run lists exactly
  the generated names, file by file. For a name without a dot, such as \<open>report\<close>, the
  extension is empty and the new name is the identifier alone.
\<close>

theorem renameProcess_renames_all:
  assumes "lookup (nodes w) (resolve (directory_path w directoryName)) = Some Dir"
    and "readdir_fault w (resolve (directory_path w directoryName)) = None"
    and "\<forall>f\<in>set (listing w (directory_path w directoryName)).
            entry_name f \<and> \<not> isUUID (path_parse_name f)"
    and "\<forall>x\<in>set (renames (new_events w (snd (renameProcess directoryName w)))). snd (snd x) = None"
  shows "fst (renameProcess directoryName w)
        = Inr (Some (length (listing w (directory_path w directoryName))))
    \<and> map fst (renames (new_events w (snd (renameProcess directoryName w))))
        = map (\<lambda>f. path_join [directory_path w directoryName, f])
            (listing w (directory_path w directoryName))
    \<and> map (fst \<circ> snd) (renames (new_events w (snd (renameProcess directoryName w))))
        = map (\<lambda>g. path_join [directory_path w directoryName, g])
            (fresh_names (random w) (drawn w) (listing w (directory_path w directoryName)))
    \<and> (\<forall>x\<in>set (listing (snd (renameProcess directoryName w)) (directory_path w directoryName)).
          \<exists>f\<in>set (listing w (directory_path w directoryName)). \<exists>u.
             isUUID u \<and> canonical_identifier u \<and> x = u @ path_extname f)
    \<and> (distinct (listing w (directory_path w directoryName))
         \<and> distinct (fresh_names (random w) (drawn w) (listing w (directory_path w directoryName)))
        \<longrightarrow> listing (snd (renameProcess directoryName w)) (directory_path w directoryName)
            = fresh_names (random w) (drawn w) (listing w (directory_path w directoryName)))
    \<and> path_extname ''report'' = []
    \<and> (CHR ''.'' \<notin> set g \<and> CHR ''/'' \<notin> set g
        \<longrightarrow> fst (getNewFilename (path_extname g) v) = uuid_v4 (random v (drawn v))
          \<and> isUUID (fst (getNewFilename (path_extname g) v)))"
proof -
  let ?d = "directory_path w directoryName"
  let ?L = "listing w ?d"
  let ?es = "new_events (started w ?d) (snd (the_loop w ?d))"
  have todo: "filter (\<lambda>f. \<not> isUUID (path_parse_name f)) ?L = ?L"
    using assms(3) by (simp only: filter_id_conv) simp
  have ev: "renames (new_events w (snd (renameProcess directoryName w))) = renames ?es"
    using assms(1,2) by (rule renameProcess_events)
  have nofail: "\<forall>x\<in>set (renames ?es). snd (snd x) = None"
    using assms(4) unfolding ev .
  from the_loop_run [of w ?d] have ok: "run_ok ?d ?L (random w) (drawn w) 0 (fst (the_loop w ?d)) ?es"
    unfolding todo by auto
  have names: "\<forall>f\<in>set ?L. entry_name f" using assms(3) by simp
  have c1: "fst (renameProcess directoryName w) = Inr (Some (length ?L))"
    unfolding renameProcess_loop [OF assms(1,2)] using run_ok_all_done [OF ok nofail] by simp
  have c2: "map fst (renames (new_events w (snd (renameProcess directoryName w))))
        = map (\<lambda>f. path_join [?d, f]) ?L"
    and c3: "map (fst \<circ> snd) (renames (new_events w (snd (renameProcess directoryName w))))
        = map (\<lambda>g. path_join [?d, g]) (fresh_names (random w) (drawn w) ?L)"
    unfolding ev using ok by (simp_all add: run_ok_def)
  let ?Q = "\<lambda>x. \<exists>f\<in>set ?L. \<exists>u. isUUID u \<and> canonical_identifier u \<and> x = u @ path_extname f"
  have nofail': "\<forall>x\<in>set (renames (new_events (started w ?d)
             (snd (rename_each ?d (length ?L) ?L 0 (started w ?d))))). snd (snd x) = None"
    using nofail unfolding the_loop_def .
  have inv: "\<forall>x\<in>set (listing (started w ?d) ?d). x \<in> set ?L \<or> ?Q x"
    by (simp add: started_frame)
  have gen: "?Q (uuid_v4 r @ path_extname f)" if "f \<in> set ?L" for r f
    using that isUUID_uuid_v4 [of r] isUUID_canonical [of "uuid_v4 r"] by blast
  have qs: "\<forall>f\<in>set ?L. if isUUID (path_parse_name f) then ?Q f
      else (\<forall>r. ?Q (uuid_v4 r @ path_extname f))"
  proof
    fix f assume f: "f \<in> set ?L"
    then have no: "\<not> isUUID (path_parse_name f)" using assms(3) by simp
    from gen [OF f] have "\<forall>r. ?Q (uuid_v4 r @ path_extname f)" by blast
    with no show "if isUUID (path_parse_name f) then ?Q f
      else (\<forall>r. ?Q (uuid_v4 r @ path_extname f))"
      by simp
  qed
  have "\<forall>x\<in>set (listing (snd (rename_each ?d (length ?L) ?L 0 (started w ?d))) ?d). ?Q x"
    by (rule rename_each_upper [where Q = ?Q, OF names nofail' inv qs])
  then have c4: "\<forall>x\<in>set (listing (snd (renameProcess directoryName w)) ?d). ?Q x"
    unfolding renameProcess_listing [OF assms(1,2)] the_loop_def .
  have c5: "listing (snd (renameProcess directoryName w)) ?d = fresh_names (random w) (drawn w) ?L"
    if "distinct ?L \<and> distinct (fresh_names (random w) (drawn w) ?L)"
  proof -
    have "listing (snd (rename_each ?d (length ?L) ?L 0 (started w ?d))) ?d
        = [] @ fresh_names (random (started w ?d)) (drawn (started w ?d)) ?L"
    proof (rule rename_each_exact)
      show "\<forall>f\<in>set ?L. entry_name f \<and> \<not> isUUID (path_parse_name f)" by (rule assms(3))
      show "\<forall>x\<in>set (renames (new_events (started w ?d)
             (snd (rename_each ?d (length ?L) ?L 0 (started w ?d))))). snd (snd x) = None"
        by (rule nofail')
      show "listing (started w ?d) ?d = [] @ ?L" by (simp add: started_frame)
      show "distinct ([] @ ?L)" using that by simp
      show "distinct (fresh_names (random (started w ?d)) (drawn (started w ?d)) ?L)"
        using that by (simp add: started_frame)
      show "set (fresh_names (random (started w ?d)) (drawn (started w ?d)) ?L) \<inter> set [] = {}"
        by simp
    qed
    then show ?thesis
      unfolding renameProcess_listing [OF assms(1,2)] the_loop_def by (simp add: started_frame)
  qed
  have c6: "path_extname ''report'' = []"
    by (rule extname_no_dot) simp_all
  have c7: "fst (getNewFilename (path_extname g) v) = uuid_v4 (random v (drawn v))
          \<and> isUUID (fst (getNewFilename (path_extname g) v))"
    if "CHR ''.'' \<notin> set g \<and> CHR ''/'' \<notin> set g"
    using that by (simp add: extname_no_dot getNewFilename_eq isUUID_uuid_v4)
  from c1 c2 c3 c4 c5 c6 c7 show ?thesis by blast
qed

theorem renameProcess_renames_all_witness:
  "lookup (nodes plain_world) (resolve (directory_path plain_world ''d'')) = Some Dir
   \<and> readdir_fault plain_world (resolve (directory_path plain_world ''d'')) = None
   \<and> listing plain_world (directory_path plain_world ''d'') = [''a.b'', ''report'']
   \<and> entry_name ''a.b'' \<and> \<not> isUUID (path_parse_name ''a.b'')
   \<and> entry_name ''report'' \<and> \<not> isUUID (path_parse_name ''report'')
   \<and> renames (new_events plain_world (snd (renameProcess ''d'' plain_world)))
       = [(''/d/a.b'', ''/d/00000000-0000-4000-8000-000000000000.b'', None),
          (''/d/report'', ''/d/00000000-0000-4000-8000-000000000001'', None)]
   \<and> fst (renameProcess ''d'' plain_world) = Inr (Some 2)
   \<and> listing (snd (renameProcess ''d'' plain_world)) ''/d''
       = [''00000000-0000-4000-8000-000000000000.b'', ''00000000-0000-4000-8000-000000000001'']"
proof -
  have h3: "\<forall>f\<in>set (listing plain_world (directory_path plain_world ''d'')).
         entry_name f \<and> \<not> isUUID (path_parse_name f)"
    unfolding dps plain_listing by (simp add: entry_name_def names_plain not_ids)
  have rn: "renames (new_events plain_world (snd (renameProcess ''d'' plain_world)))
      = [(''/d/a.b'', ''/d/00000000-0000-4000-8000-000000000000.b'', None),
         (''/d/report'', ''/d/00000000-0000-4000-8000-000000000001'', None)]"
    unfolding plain_run by (simp add: new_events_def plain_world_def)
  have h4: "\<forall>x\<in>set (renames (new_events plain_world (snd (renameProcess ''d'' plain_world)))).
         snd (snd x) = None"
    unfolding rn by simp
  have fr: "fresh_names (random plain_world) (drawn plain_world) [''a.b'', ''report'']
      = [''00000000-0000-4000-8000-000000000000.b'', ''00000000-0000-4000-8000-000000000001'']"
    by (simp add: plain_world_def uuid_0 uuid_1 names_plain)
  from renameProcess_renames_all [OF exists_d(1) readable_d(1) h3 h4]
  have "fst (renameProcess ''d'' plain_world) = Inr (Some 2)
     \<and> listing (snd (renameProcess ''d'' plain_world)) ''/d''
       = [''00000000-0000-4000-8000-000000000000.b'', ''00000000-0000-4000-8000-000000000001'']"
    unfolding dps plain_listing fr by simp
  moreover have "listing plain_world (directory_path plain_world ''d'') = [''a.b'', ''report'']"
    unfolding dps by (rule plain_listing)
  moreover have "entry_name ''a.b'' \<and> \<not> isUUID (path_parse_name ''a.b'')
      \<and> entry_name ''report'' \<and> \<not> isUUID (path_parse_name ''report'')"
    by (simp add: entry_name_def names_plain not_ids)
  ultimately show ?thesis using exists_d(1) readable_d(1) rn by blast
qed


lemma join_entry_inj:
  assumes "entry_name f" "entry_name g" "path_join [d, f] = path_join [d, g]"
  shows "f = g"
proof -
  have "resolve (path_join [d, f]) = resolve (path_join [d, g])" using assms(3) by simp
  then show ?thesis by (simp add: resolve_entry assms(1,2))
qed

lemma names_mixed:
  "path_parse_name ''A1b2C3d4-e5F6-07a8-f9b0-c1d2e3f4A5B6.png'' = ''A1b2C3d4-e5F6-07a8-f9b0-c1d2e3f4A5B6''"
  "isUUID ''A1b2C3d4-e5F6-07a8-f9b0-c1d2e3f4A5B6''"
  "path_join [''/d'', ''A1b2C3d4-e5F6-07a8-f9b0-c1d2e3f4A5B6.png''] = ''/d/A1b2C3d4-e5F6-07a8-f9b0-c1d2e3f4A5B6.png''"
  by code_simp+

lemma mixed_listing:
  "listing mixed_world ''/d'' = [''a.b'', ''A1b2C3d4-e5F6-07a8-f9b0-c1d2e3f4A5B6.png'']"
  by (simp add: listing_def res_d entries_def mixed_world_def plain_world_def)

lemma mixed_run:
  "renameProcess ''d'' mixed_world =
     (Inr (Some 1),
      mixed_world\<lparr>nodes := [([''s''], Dir), ([''d''], Dir),
           ([''d'', ''00000000-0000-4000-8000-000000000000.b''], File ''x''),
           ([''d'', ''A1b2C3d4-e5F6-07a8-f9b0-c1d2e3f4A5B6.png''], File ''z'')],
        drawn := 1,
        trace := [Stat ''/d'', Readdir ''/d'', Log ''Started renaming process.'',
          Rename ''/d/a.b'' ''/d/00000000-0000-4000-8000-000000000000.b'' None,
          Log ''Processing a.b (1/2)'',
          Log ''Renaming process completed.'']\<rparr>)"
  by (simp add: mixed_world_def plain_world_def eval_world dp_d res_d uuid_0 uuid_1 names_plain
      names_mixed not_ids joins resolves decs)

text \<open>
  Claim C2. Take a directory that exists and can be listed, and an entry of it whose base name
  (\<open>path.parse(...).name\<close>) is matched by \<open>isUUID\<close>, in whatever case its hexadecimal
  digits are written. No rename call of the run has this entry as its source; the entry is
  still listed under its name after the run, whatever happened to the other entries; and the
  counter ends at the number of rename calls that succeeded, of which there are fewer than
  entries: the skipped entry adds nothing to it.
\<close>

theorem renameProcess_skips_identifiers:
  assumes "lookup (nodes w) (resolve (directory_path w directoryName)) = Some Dir"
    and "readdir_fault w (resolve (directory_path w directoryName)) = None"
    and "\<forall>f\<in>set (listing w (directory_path w directoryName)). entry_name f"
    and "e \<in> set (listing w (directory_path w directoryName))"
    and "isUUID (path_parse_name e)"
  shows "path_join [directory_path w directoryName, e]
        \<notin> fst ` set (renames (new_events w (snd (renameProcess directoryName w))))
    \<and> e \<in> set (listing (snd (renameProcess directoryName w)) (directory_path w directoryName))
    \<and> fst (renameProcess directoryName w)
        = Inr (Some (length (filter (\<lambda>x. snd (snd x) = None)
            (renames (new_events w (snd (renameProcess directoryName w)))))))
    \<and> length (renames (new_events w (snd (renameProcess directoryName w))))
        < length (listing w (directory_path w directoryName))"
proof -
  let ?d = "directory_path w directoryName"
  let ?L = "listing w ?d"
  let ?todo = "filter (\<lambda>f. \<not> isUUID (path_parse_name f)) ?L"
  let ?es = "new_events (started w ?d) (snd (the_loop w ?d))"
  have ev: "renames (new_events w (snd (renameProcess directoryName w))) = renames ?es"
    using assms(1,2) by (rule renameProcess_events)
  from the_loop_run [of w ?d] have ok: "run_ok ?d ?todo (random w) (drawn w) 0 (fst (the_loop w ?d)) ?es"
    by auto
  have src: "map fst (renames ?es) = map (\<lambda>f. path_join [?d, f]) ?todo"
    using ok by (simp add: run_ok_def)
  have c1: "path_join [?d, e] \<notin> fst ` set (renames ?es)"
  proof
    assume "path_join [?d, e] \<in> fst ` set (renames ?es)"
    then have "path_join [?d, e] \<in> set (map fst (renames ?es))" by simp
    then obtain f where f: "f \<in> set ?todo" and eq: "path_join [?d, f] = path_join [?d, e]"
      unfolding src by auto
    from f have "entry_name f" and no: "\<not> isUUID (path_parse_name f)" using assms(3) by auto
    with eq assms(3,4) have "f = e" by (auto intro: join_entry_inj)
    with no assms(5) show False by simp
  qed
  have "e \<in> set (listing (snd (rename_each ?d (length ?L) ?L 0 (started w ?d))) ?d)"
    using assms(3,4,5) by (intro rename_each_keeps) (simp_all add: started_frame)
  then have c2: "e \<in> set (listing (snd (renameProcess directoryName w)) ?d)"
    unfolding renameProcess_listing [OF assms(1,2)] the_loop_def .
  have c3: "fst (renameProcess directoryName w)
        = Inr (Some (length (filter (\<lambda>x. snd (snd x) = None) (renames ?es))))"
    unfolding renameProcess_loop [OF assms(1,2)] using ok by (simp add: run_ok_def)
  have "length (renames ?es) = length ?todo"
    using src by (metis length_map)
  moreover have "length ?todo < length ?L"
    using assms(4,5) by (simp add: length_filter_less)
  ultimately have c4: "length (renames ?es) < length ?L" by simp
  from c1 c2 c3 c4 show ?thesis unfolding ev by blast
qed

theorem renameProcess_skips_identifiers_witness:
  "lookup (nodes mixed_world) (resolve (directory_path mixed_world ''d'')) = Some Dir
   \<and> readdir_fault mixed_world (resolve (directory_path mixed_world ''d'')) = None
   \<and> listing mixed_world (directory_path mixed_world ''d'')
       = [''a.b'', ''A1b2C3d4-e5F6-07a8-f9b0-c1d2e3f4A5B6.png'']
   \<and> entry_name ''a.b'' \<and> entry_name ''A1b2C3d4-e5F6-07a8-f9b0-c1d2e3f4A5B6.png''
   \<and> isUUID (path_parse_name ''A1b2C3d4-e5F6-07a8-f9b0-c1d2e3f4A5B6.png'')
   \<and> renames (new_events mixed_world (snd (renameProcess ''d'' mixed_world)))
       = [(''/d/a.b'', ''/d/00000000-0000-4000-8000-000000000000.b'', None)]
   \<and> ''A1b2C3d4-e5F6-07a8-f9b0-c1d2e3f4A5B6.png''
       \<in> set (listing (snd (renameProcess ''d'' mixed_world)) ''/d'')
   \<and> fst (renameProcess ''d'' mixed_world) = Inr (Some 1)"
proof -
  have ls: "listing mixed_world (directory_path mixed_world ''d'')
       = [''a.b'', ''A1b2C3d4-e5F6-07a8-f9b0-c1d2e3f4A5B6.png'']"
    unfolding dps by (rule mixed_listing)
  have en: "entry_name ''a.b''" "entry_name ''A1b2C3d4-e5F6-07a8-f9b0-c1d2e3f4A5B6.png''"
    by (simp_all add: entry_name_def)
  have h3: "\<forall>f\<in>set (listing mixed_world (directory_path mixed_world ''d'')). entry_name f"
    unfolding ls using en by simp
  have h4: "''A1b2C3d4-e5F6-07a8-f9b0-c1d2e3f4A5B6.png''
      \<in> set (listing mixed_world (directory_path mixed_world ''d''))"
    unfolding ls by simp
  have h5: "isUUID (path_parse_name ''A1b2C3d4-e5F6-07a8-f9b0-c1d2e3f4A5B6.png'')"
    by (simp add: names_mixed)
  have rn: "renames (new_events mixed_world (snd (renameProcess ''d'' mixed_world)))
       = [(''/d/a.b'', ''/d/00000000-0000-4000-8000-000000000000.b'', None)]"
    unfolding mixed_run by (simp add: new_events_def mixed_world_def plain_world_def)
  from renameProcess_skips_identifiers [OF exists_d(4) readable_d(3) h3 h4 h5]
  have "''A1b2C3d4-e5F6-07a8-f9b0-c1d2e3f4A5B6.png''
       \<in> set (listing (snd (renameProcess ''d'' mixed_world)) ''/d'')
     \<and> fst (renameProcess ''d'' mixed_world) = Inr (Some 1)"
    unfolding dps rn by simp
  with exists_d(4) readable_d(3) ls en h5 rn show ?thesis by blast
qed




section \<open>Claims about paths and names\<close>

lemma renameProcess_try_trace:
  "\<exists>es. trace (snd (renameProcess_try d w)) = trace w @ Stat d # es"
proof (cases "directory_at w d")
  case False
  then show ?thesis by (simp add: renameProcess_try_missing)
next
  case True
  show ?thesis
  proof (cases "readdir_fault w (resolve d)")
    case (Some e)
    with True show ?thesis by (simp add: renameProcess_try_unreadable)
  next
    case None
    from rename_each_trace [of d "length (listing w d)" "listing w d" 0
        "w\<lparr>trace := trace w @ [Stat d, Readdir d, Log ''Started renaming process.'']\<rparr>"]
    obtain es where "trace (snd (rename_each d (length (listing w d)) (listing w d) 0
          (w\<lparr>trace := trace w @ [Stat d, Readdir d, Log ''Started renaming process.'']\<rparr>)))
        = trace w @ Stat d # [Readdir d, Log ''Started renaming process.''] @ es"
      by auto
    then show ?thesis
      unfolding renameProcess_try_run [OF True None] by (simp add: console_log_frame)
  qed
qed

lemma renameProcess_trace:
  "\<exists>es. trace (snd (renameProcess name w)) = trace w @ Stat (directory_path w name) # es"
proof -
  from renameProcess_try_trace [of "directory_path w name" w] obtain es where
    es: "trace (snd (renameProcess_try (directory_path w name) w)) = trace w @ Stat (directory_path w name) # es"
    by blast
  show ?thesis
  proof (cases "renameProcess_try (directory_path w name) w")
    case (Pair r v)
    with es show ?thesis
      unfolding renameProcess_unfold by (cases r) (simp_all add: console_error_def emit_def)
  qed
qed

lemma resolve_parent_entry:
  assumes "entry_name name"
  shows "resolve (path_join [md, ''../'', name]) = butlast (resolve md) @ [name]"
proof -
  have sp: "split_on CHR ''/'' name = [name]" and cl: "clean name"
    using assms by (auto simp: entry_name_def clean_def split_on_plain)
  have "N False acc [name] = rev acc @ [name]" for acc
    using cl by (subst N_clean) auto
  then show ?thesis unfolding resolve_parent sp by simp
qed

text \<open>
  Claim C9. The entry point without arguments is \<open>renameProcess\<close> called with the fixed name
  \<open>files\<close>. Whatever name \<open>renameProcess\<close> is given, its first call is the stat of the
  path joined from the program's own directory, \<open>../\<close> and the name; that path denotes what
  the segments of the name lead to when walked from the parent of the program's directory,
  so a plain name denotes the entry of that name in the parent, \<open>files\<close> among them, and a
  name that starts with a separator is taken relative to the parent all the same, never as
  an absolute path.
\<close>

theorem startRenameFilesService_target:
  "startRenameFilesService w = renameProcess ''files'' w
   \<and> (\<exists>es. trace (snd (renameProcess directoryName w))
         = trace w @ Stat (path_join [module_dir w, ''../'', directoryName]) # es)
   \<and> resolve (path_join [module_dir w, ''../'', directoryName])
       = normalize_segments False (rev (butlast (resolve (module_dir w))))
           (split_on CHR ''/'' directoryName)
   \<and> (entry_name directoryName \<longrightarrow>
        resolve (path_join [module_dir w, ''../'', directoryName])
          = butlast (resolve (module_dir w)) @ [directoryName])
   \<and> resolve (path_join [module_dir w, ''../'', ''files''])
       = butlast (resolve (module_dir w)) @ [''files'']
   \<and> path_join [''/app/src'', ''../'', ''/etc''] = ''/app/etc''"
proof (intro conjI impI)
  show "startRenameFilesService w = renameProcess ''files'' w"
    by (simp add: startRenameFilesService_def)
  show "\<exists>es. trace (snd (renameProcess directoryName w))
         = trace w @ Stat (path_join [module_dir w, ''../'', directoryName]) # es"
    using renameProcess_trace [of directoryName w] by (simp add: directory_path_def)
  show "resolve (path_join [module_dir w, ''../'', directoryName])
       = normalize_segments False (rev (butlast (resolve (module_dir w))))
           (split_on CHR ''/'' directoryName)"
    by (rule resolve_parent)
  show "resolve (path_join [module_dir w, ''../'', directoryName])
          = butlast (resolve (module_dir w)) @ [directoryName]" if "entry_name directoryName"
    using that by (rule resolve_parent_entry)
  show "resolve (path_join [module_dir w, ''../'', ''files''])
       = butlast (resolve (module_dir w)) @ [''files'']"
    by (rule resolve_parent_entry) (simp add: entry_name_def)
  show "path_join [''/app/src'', ''../'', ''/etc''] = ''/app/etc''"
    by code_simp
qed

theorem startRenameFilesService_target_witness:
  "entry_name ''d''
   \<and> resolve (path_join [module_dir plain_world, ''../'', ''d'']) = [''d'']
   \<and> startRenameFilesService plain_world = renameProcess ''files'' plain_world
   \<and> resolve (path_join [module_dir plain_world, ''../'', ''files'']) = [''files'']"
proof -
  have e: "entry_name ''d''" by (simp add: entry_name_def)
  have r: "resolve (module_dir plain_world) = [''s'']"
    unfolding plain_world_def by simp code_simp
  from startRenameFilesService_target [of plain_world "''d''"] e
  show ?thesis unfolding r by simp
qed

text \<open>
  Claim C10. For a name that starts with a dot and contains neither another dot nor a
  separator, such as \<open>.gitignore\<close>, the extension is empty and the base name is the whole
  name. \<open>isUUID\<close> never matches it, so the loop asks for its rename, towards a name that
  is the fresh identifier alone: no extension, and no dot at all.
\<close>

theorem dotfile_renamed_bare:
  assumes "CHR ''.'' \<notin> set x" and "CHR ''/'' \<notin> set x"
  shows "path_extname (CHR ''.'' # x) = []
    \<and> path_parse_name (CHR ''.'' # x) = CHR ''.'' # x
    \<and> \<not> isUUID (path_parse_name (CHR ''.'' # x))
    \<and> fst (getNewFilename (path_extname (CHR ''.'' # x)) w) = uuid_v4 (random w (drawn w))
    \<and> (\<exists>r es. trace (snd (rename_each d t ((CHR ''.'' # x) # rest) n w))
          = trace w @ Rename (path_join [d, CHR ''.'' # x])
              (path_join [d, uuid_v4 (random w (drawn w))]) r # es)
    \<and> isUUID (uuid_v4 (random w (drawn w)))
    \<and> CHR ''.'' \<notin> set (uuid_v4 (random w (drawn w)))"
proof -
  let ?f = "CHR ''.'' # x"
  have ext: "path_extname ?f = []" and name: "path_parse_name ?f = ?f"
    using assms by (rule extname_leading_dot)+
  have no: "\<not> isUUID (path_parse_name ?f)"
    unfolding name by (rule not_isUUID_leading_dot)
  have gen: "fst (getNewFilename (path_extname ?f) w) = uuid_v4 (random w (drawn w))"
    unfolding ext by (simp add: getNewFilename_eq)
  have step: "rename_each d t (?f # rest) n w
      = rename_each d t rest (fst (turn d t ?f n w)) (snd (turn d t ?f n w))"
    by (rule rename_each_turn [OF no])
  from rename_each_trace [of d t rest "fst (turn d t ?f n w)" "snd (turn d t ?f n w)"]
  obtain es where es: "trace (snd (rename_each d t (?f # rest) n w))
      = trace (snd (turn d t ?f n w)) @ es"
    unfolding step by blast
  have tr: "\<exists>r es. trace (snd (rename_each d t (?f # rest) n w))
          = trace w @ Rename (path_join [d, ?f]) (path_join [d, uuid_v4 (random w (drawn w))]) r # es"
    unfolding es by (cases rule: turn_cases [of w d ?f t n]) (simp_all add: ext)
  have id: "isUUID (uuid_v4 (random w (drawn w)))" by (rule isUUID_uuid_v4)
  from ext name no gen tr id isUUID_no_dot [OF id] show ?thesis by blast
qed

theorem dotfile_renamed_bare_witness:
  "CHR ''.'' \<notin> set ''gitignore'' \<and> CHR ''/'' \<notin> set ''gitignore''
   \<and> path_extname ''.gitignore'' = []
   \<and> path_parse_name ''.gitignore'' = ''.gitignore''
   \<and> fst (getNewFilename (path_extname ''.gitignore'') plain_world)
       = ''00000000-0000-4000-8000-000000000000''"
proof -
  have h: "CHR ''.'' \<notin> set ''gitignore''" "CHR ''/'' \<notin> set ''gitignore''" by simp_all
  have u: "uuid_v4 (random plain_world (drawn plain_world)) = ''00000000-0000-4000-8000-000000000000''"
    by (simp add: plain_world_def uuid_0)
  from dotfile_renamed_bare [OF h, where w = plain_world and d = "''/d''" and t = 0
      and rest = "[]" and n = 0] h
  show ?thesis
    unfolding u by blast
qed

section \<open>The generator of empty files\<close>

lemma fs_writeFile_cases:
  obtains (refused) e where "write_refusal w (resolve p) = Some e"
      "fs_writeFile p c w = (Inl e, emit (WriteFile p c (Some e)) w)"
  | (written) "write_refusal w (resolve p) = None"
      "fs_writeFile p c w =
        (Inr (), emit (WriteFile p c None) (w\<lparr>nodes := store (resolve p) (File c) (nodes w)\<rparr>))"
  by (cases "write_refusal w (resolve p)") (simp_all add: fs_writeFile_def Let_def)



























end
